theory Spec2Isabelle
  imports
    Complex_Main
    "HOL-Library.Multiset"
    "HOL-Library.Product_Lexorder"
    "HOL-Library.List_Lexorder"
    "HOL-Library.Char_ord"
begin

section \<open>Monthly average code churn: \<^verbatim>\<open>src/pydriller/avg_churn.py\<close>\<close>

text \<open>
  A shallow embedding of the script. Python integers are \<^typ>\<open>int\<close>, lists are lists,
  dictionaries are association lists in insertion order, exceptions are values of the
  type \<open>error\<close> on the left of a sum, and the file system is a record of what the
  script can observe of it. The libraries the script calls (datetime, dateutil, numpy, os, shutil,
  multiprocessing, pydriller) are not part of the repository: what the script needs of
  them is either modelled here from their documented behaviour, or taken as a parameter
  (the history reader, the addition of a step to a datetime).
\<close>

subsection \<open>Exceptions\<close>

datatype error =
    AssertionError
  | ValueError
  | FileNotFoundError
  | FileExistsError
  | PermissionError
  | NotADirectoryError
  | KeyError
  | ReaderError string

subsection \<open>Datetimes\<close>

text \<open>
  A naive \<^verbatim>\<open>datetime.datetime\<close>: seven integer fields, compared field by field from the
  year down, as Python compares them.
\<close>

record dt =
  year :: int
  month :: int
  day :: int
  hour :: int
  minute :: int
  second :: int
  microsecond :: int

definition datetime :: "int \<Rightarrow> int \<Rightarrow> int \<Rightarrow> dt" where
  \<comment> \<open>\<^verbatim>\<open>dt(y, m, d)\<close>: midnight of the given day\<close>
  "datetime y m d =
     \<lparr>year = y, month = m, day = d, hour = 0, minute = 0, second = 0, microsecond = 0\<rparr>"

definition dt_tuple :: "dt \<Rightarrow> int \<times> int \<times> int \<times> int \<times> int \<times> int \<times> int" where
  "dt_tuple d = (year d, month d, day d, hour d, minute d, second d, microsecond d)"

definition dt_less :: "dt \<Rightarrow> dt \<Rightarrow> bool" where
  \<comment> \<open>\<^verbatim>\<open>a < b\<close> on datetimes\<close>
  "dt_less a b = (dt_tuple a < dt_tuple b)"

definition isleap :: "int \<Rightarrow> bool" where
  "isleap y = (y mod 4 = 0 \<and> (y mod 100 \<noteq> 0 \<or> y mod 400 = 0))"

definition monthrange :: "int \<Rightarrow> int \<Rightarrow> int" where
  \<comment> \<open>\<^verbatim>\<open>calendar.monthrange(y, m)[1]\<close>, the number of days of month \<open>m\<close> (1 to 12) of year \<open>y\<close>\<close>
  "monthrange y m =
     (if m = 2 then (if isleap y then 29 else 28)
      else if m = 4 \<or> m = 6 \<or> m = 9 \<or> m = 11 then 30 else 31)"

definition valid_dt :: "dt \<Rightarrow> bool" where
  \<comment> \<open>the datetimes that Python can construct (\<^verbatim>\<open>MINYEAR = 1\<close>, \<^verbatim>\<open>MAXYEAR = 9999\<close>)\<close>
  "valid_dt d =
     (1 \<le> year d \<and> year d \<le> 9999 \<and> 1 \<le> month d \<and> month d \<le> 12 \<and>
      1 \<le> day d \<and> day d \<le> monthrange (year d) (month d) \<and>
      0 \<le> hour d \<and> hour d < 24 \<and> 0 \<le> minute d \<and> minute d < 60 \<and>
      0 \<le> second d \<and> second d < 60 \<and> 0 \<le> microsecond d \<and> microsecond d < 1000000)"

text \<open>
  \<^verbatim>\<open>dateutil.relativedelta\<close> with its relative \<open>years\<close> and \<open>months\<close> (the script builds
  \<^verbatim>\<open>relativedelta(months=1)\<close>). The constructor normalises a month count beyond 11 into
  years; adding to a datetime moves the year and month, clips the day to the length of
  the month reached, and raises when the year leaves 1..9999.
\<close>

record relativedelta =
  years :: int
  months :: int

definition relativedelta_months :: "int \<Rightarrow> relativedelta" where
  \<comment> \<open>\<^verbatim>\<open>relativedelta(months=n)\<close>\<close>
  "relativedelta_months n =
     (let s = (if n < 0 then - 1 else 1); q = (n * s) div 12; r = (n * s) mod 12
      in \<lparr>years = q * s, months = r * s\<rparr>)"

definition dt_add :: "dt \<Rightarrow> relativedelta \<Rightarrow> error + dt" where
  \<comment> \<open>\<^verbatim>\<open>d + r\<close>\<close>
  "dt_add d r =
     (let y0 = year d + years r;
          m0 = month d + months r;
          y = (if m0 > 12 then y0 + 1 else if m0 < 1 then y0 - 1 else y0);
          m = (if m0 > 12 then m0 - 12 else if m0 < 1 then m0 + 12 else m0)
      in if y < 1 \<or> 9999 < y then Inl ValueError
         else Inr (d\<lparr>year := y, month := m, day := min (monthrange y m) (day d)\<rparr>))"

subsection \<open>Constants for the date range\<close>

definition GLOBAL_START_DATE :: dt where
  "GLOBAL_START_DATE = datetime 2019 10 1"

definition GLOBAL_END_DATE :: dt where
  "GLOBAL_END_DATE = datetime 2025 2 1"

subsection \<open>\<^verbatim>\<open>createMonthList\<close>\<close>

text \<open>
  The \<^verbatim>\<open>while\<close> loop, with the list built so far as an accumulator. \<open>add\<close> is the
  \<^verbatim>\<open>+=\<close> of a step to a datetime; it may raise. The loop does not return when the
  cursor never reaches \<open>endDate\<close>: the value is then \<open>None\<close>.
\<close>

partial_function (option) createMonthList_loop ::
  "(dt \<Rightarrow> 's \<Rightarrow> error + dt) \<Rightarrow> dt \<Rightarrow> 's \<Rightarrow> dt \<Rightarrow> dt list \<Rightarrow> (error + dt list) option"
where
  "createMonthList_loop add endDate stepSize startDate monthList =
     (if dt_less startDate endDate then
        (case add startDate stepSize of
           Inl e \<Rightarrow> Some (Inl e)
         | Inr startDate' \<Rightarrow>
             createMonthList_loop add endDate stepSize startDate' (monthList @ [startDate]))
      else Some (Inr (monthList @ [endDate])))"

declare createMonthList_loop.simps [code]

definition createMonthList ::
  "(dt \<Rightarrow> 's \<Rightarrow> error + dt) \<Rightarrow> dt \<Rightarrow> dt \<Rightarrow> 's \<Rightarrow> (error + dt list) option"
where
  "createMonthList add startDate endDate stepSize =
     createMonthList_loop add endDate stepSize startDate []"

definition monthPairs_of :: "dt list \<Rightarrow> (dt \<times> dt) list" where
  \<comment> \<open>\<^verbatim>\<open>[(monthList[i], monthList[i + 1]) for i in range(len(monthList) - 1)]\<close>\<close>
  "monthPairs_of monthList =
     map (\<lambda>i. (monthList ! i, monthList ! (i + 1))) [0 ..< length monthList - 1]"


subsection \<open>Strings, paths and the file system\<close>

definition digit_char :: "nat \<Rightarrow> char" where
  "digit_char n = ''0123456789'' ! n"

fun str_nat :: "nat \<Rightarrow> string" where
  \<comment> \<open>\<^verbatim>\<open>str(n)\<close> of a non-negative integer\<close>
  "str_nat n = (if n < 10 then [digit_char n] else str_nat (n div 10) @ [digit_char (n mod 10)])"

declare str_nat.simps [simp del]

text \<open>
  The file system, as far as the script depends on it: the paths that exist (those for
  which \<^verbatim>\<open>os.path.exists\<close> holds); the dangling symbolic links, which are directory
  entries for which \<^verbatim>\<open>os.path.exists\<close> is false while nothing can be created under
  their name; and the paths that the operating system refuses to create for a reason not
  tracked otherwise (permissions, a parent that is not a directory), each with the
  exception it raises.
\<close>

record fs =
  existing :: "string list"
  dangling :: "string list"
  refused :: "(string \<times> error) list"

definition os_path_exists :: "fs \<Rightarrow> string \<Rightarrow> bool" where
  "os_path_exists files p = (p \<in> set (existing files))"

definition os_path_dirname :: "string \<Rightarrow> string" where
  \<comment> \<open>\<^verbatim>\<open>os.path.dirname(p)\<close> on POSIX: up to the last slash, without trailing slashes unless
      it consists of slashes only\<close>
  "os_path_dirname p =
     (let head = rev (dropWhile (\<lambda>c. c \<noteq> CHR ''/'') (rev p))
      in if head \<noteq> [] \<and> \<not> list_all (\<lambda>c. c = CHR ''/'') head
         then rev (dropWhile (\<lambda>c. c = CHR ''/'') (rev head))
         else head)"

definition parent_missing :: "fs \<Rightarrow> string \<Rightarrow> bool" where
  \<comment> \<open>the directory that is to hold \<open>p\<close> does not exist; the current directory (empty
      name) and the root always do\<close>
  "parent_missing files p =
     (let d = os_path_dirname p
      in d \<noteq> [] \<and> \<not> list_all (\<lambda>c. c = CHR ''/'') d \<and> \<not> os_path_exists files d)"

definition os_mkdir :: "fs \<Rightarrow> string \<Rightarrow> error + fs" where
  \<comment> \<open>\<^verbatim>\<open>os.mkdir(p)\<close>, for a path that does not end in a slash\<close>
  "os_mkdir files p =
     (if parent_missing files p then Inl FileNotFoundError
      else if p \<in> set (existing files) \<or> p \<in> set (dangling files) then Inl FileExistsError
      else
        (case map_of (refused files) p of
           Some e \<Rightarrow> Inl e
         | None \<Rightarrow> Inr (files\<lparr>existing := existing files @ [p]\<rparr>)))"

definition shutil_copytree :: "fs \<Rightarrow> string \<Rightarrow> string \<Rightarrow> error + fs" where
  \<comment> \<open>\<^verbatim>\<open>os.makedirs\<close> inside creates the missing parents of \<open>dst\<close>; only the destination
      directory itself is recorded as created\<close>
  "shutil_copytree files src dst =
     (if \<not> os_path_exists files src then Inl FileNotFoundError
      else if dst \<in> set (existing files) \<or> dst \<in> set (dangling files) then Inl FileExistsError
      else
        (case map_of (refused files) dst of
           Some e \<Rightarrow> Inl e
         | None \<Rightarrow> Inr (files\<lparr>existing := existing files @ [dst]\<rparr>)))"

fun os_path_join2 :: "string \<Rightarrow> string \<Rightarrow> string" where
  "os_path_join2 a b =
     (if b \<noteq> [] \<and> hd b = CHR ''/'' then b
      else if a = [] \<or> last a = CHR ''/'' then a @ b
      else a @ ''/'' @ b)"

definition os_path_join3 :: "string \<Rightarrow> string \<Rightarrow> string \<Rightarrow> string" where
  \<comment> \<open>\<^verbatim>\<open>os.path.join(a, b, c)\<close> on POSIX\<close>
  "os_path_join3 a b c = os_path_join2 (os_path_join2 a b) c"

subsection \<open>\<^verbatim>\<open>get_new_temp_dir\<close>\<close>

definition temp_dir_name :: "string \<Rightarrow> nat \<Rightarrow> string" where
  \<comment> \<open>\<^verbatim>\<open>f"{base_dir}_v{version}"\<close>\<close>
  "temp_dir_name base_dir version = base_dir @ ''_v'' @ str_nat version"

partial_function (option) get_new_temp_dir_loop :: "fs \<Rightarrow> string \<Rightarrow> nat \<Rightarrow> string option" where
  "get_new_temp_dir_loop files base_dir version =
     (if os_path_exists files (temp_dir_name base_dir version)
      then get_new_temp_dir_loop files base_dir (version + 1)
      else Some (temp_dir_name base_dir version))"

declare get_new_temp_dir_loop.simps [code]

definition get_new_temp_dir :: "fs \<Rightarrow> string \<Rightarrow> ((error + string) \<times> fs) option" where
  "get_new_temp_dir files base_dir =
     (case get_new_temp_dir_loop files base_dir 0 of
        None \<Rightarrow> None
      | Some new_temp_dir \<Rightarrow>
          (case os_mkdir files new_temp_dir of
             Inl e \<Rightarrow> Some (Inl e, files)
           | Inr files' \<Rightarrow> Some (Inr new_temp_dir, files')))"

subsection \<open>\<^verbatim>\<open>createMultipleRepos\<close>\<close>

fun createMultipleRepos_loop ::
  "fs \<Rightarrow> string \<Rightarrow> string \<Rightarrow> nat list \<Rightarrow> string list \<Rightarrow> (error + string list) \<times> fs"
where
  "createMultipleRepos_loop files sourceDir tempDir [] directories = (Inr directories, files)"
| "createMultipleRepos_loop files sourceDir tempDir (i # rest) directories =
     (let tempDirName = os_path_join3 tempDir (''tempDir_'' @ str_nat i) ''.git''
      in case shutil_copytree files sourceDir tempDirName of
           Inl e \<Rightarrow> (Inl e, files)
         | Inr files' \<Rightarrow>
             createMultipleRepos_loop files' sourceDir tempDir rest (directories @ [tempDirName]))"

definition createMultipleRepos ::
  "fs \<Rightarrow> string \<Rightarrow> string \<Rightarrow> int \<Rightarrow> (error + string list) \<times> fs"
where
  \<comment> \<open>\<^verbatim>\<open>range(numCopies)\<close> is empty for \<open>numCopies \<le> 0\<close>\<close>
  "createMultipleRepos files sourceDir tempDir numCopies =
     createMultipleRepos_loop files sourceDir tempDir [0 ..< nat numCopies] []"

subsection \<open>\<^verbatim>\<open>numpy.array_split\<close>\<close>

fun cumsum_from :: "nat \<Rightarrow> nat list \<Rightarrow> nat list" where
  "cumsum_from acc [] = []"
| "cumsum_from acc (x # xs) = (acc + x) # cumsum_from (acc + x) xs"

definition np_array_split :: "'a list \<Rightarrow> int \<Rightarrow> error + 'a list list" where
  \<comment> \<open>as numpy computes it: section sizes, their running sums, then the slices between them\<close>
  "np_array_split ary indices_or_sections =
     (if indices_or_sections \<le> 0 then Inl ValueError
      else
        let Ntotal = length ary;
            Nsections = nat indices_or_sections;
            Neach_section = Ntotal div Nsections;
            extras = Ntotal mod Nsections;
            section_sizes =
              [0] @ replicate extras (Neach_section + 1) @ replicate (Nsections - extras) Neach_section;
            div_points = cumsum_from 0 section_sizes
        in Inr (map (\<lambda>i. take (div_points ! (i + 1) - div_points ! i) (drop (div_points ! i) ary))
                  [0 ..< Nsections]))"

subsection \<open>\<^verbatim>\<open>createJobsByTimeDelta\<close>\<close>

record job =
  job_id :: int
  dateRanges :: "(dt \<times> dt) list"
  directory :: string

definition jobList_of :: "(dt \<times> dt) list \<Rightarrow> string list \<Rightarrow> error + job list" where
  \<comment> \<open>the \<^verbatim>\<open>for\<close> loop over \<^verbatim>\<open>zip(range(len(directories)), np.array_split(monthPairs, len(directories)))\<close>\<close>
  "jobList_of monthPairs directories =
     (case np_array_split monthPairs (int (length directories)) of
        Inl e \<Rightarrow> Inl e
      | Inr chunks \<Rightarrow>
          Inr (map (\<lambda>(i, dateRanges').
                      \<lparr>job_id = int i, dateRanges = dateRanges', directory = directories ! i\<rparr>)
                 (zip [0 ..< length directories] chunks)))"

definition createJobsByTimeDelta ::
  "fs \<Rightarrow> (dt \<Rightarrow> 's \<Rightarrow> error + dt) \<Rightarrow> string \<Rightarrow> 's \<Rightarrow> string list \<Rightarrow> (error + job list) option"
where
  "createJobsByTimeDelta files add repoPath timeDelta directories =
     (if \<not> os_path_exists files repoPath then Some (Inl AssertionError)
      else
        (case createMonthList add GLOBAL_START_DATE GLOBAL_END_DATE timeDelta of
           None \<Rightarrow> None
         | Some (Inl e) \<Rightarrow> Some (Inl e)
         | Some (Inr monthList) \<Rightarrow> Some (jobList_of (monthPairs_of monthList) directories)))"

subsection \<open>\<^verbatim>\<open>codeChurnJob\<close>\<close>

text \<open>
  A commit as the history reader reports it, and the reader itself: given the path of a
  repository and a window, the commits in the window, or an exception. The reader is a
  parameter of the model.
\<close>

record commit =
  commit_insertions :: int
  commit_deletions :: int

type_synonym reader = "string \<Rightarrow> dt \<Rightarrow> dt \<Rightarrow> error + commit list"

record interval_result =
  res_id :: int
  repoPath :: string
  startDate :: dt
  endDate :: dt
  insertions :: int
  deletions :: int
  churn :: int

definition add_commit :: "interval_result \<Rightarrow> commit \<Rightarrow> interval_result" where
  "add_commit temp c =
     temp\<lparr>insertions := insertions temp + commit_insertions c,
          deletions := deletions temp + commit_deletions c\<rparr>"

fun codeChurnJob_loop ::
  "reader \<Rightarrow> int \<Rightarrow> string \<Rightarrow> (dt \<times> dt) list \<Rightarrow> interval_result list \<Rightarrow> error + interval_result list"
where
  "codeChurnJob_loop traverse_commits i path [] finishedJobs = Inr finishedJobs"
| "codeChurnJob_loop traverse_commits i path ((startDate', endDate') # rest) finishedJobs =
     (let temp = \<lparr>res_id = i, repoPath = path, startDate = startDate', endDate = endDate',
                   insertions = 0, deletions = 0, churn = 0\<rparr>
      in case traverse_commits path startDate' endDate' of
           Inl e \<Rightarrow> Inl e
         | Inr commits \<Rightarrow>
             (let temp1 = foldl add_commit temp commits;
                  temp2 = temp1\<lparr>churn := insertions temp1 + deletions temp1\<rparr>
              in codeChurnJob_loop traverse_commits i path rest (finishedJobs @ [temp2])))"

definition codeChurnJob :: "reader \<Rightarrow> job \<Rightarrow> error + (int \<times> string \<times> interval_result list)" where
  "codeChurnJob traverse_commits j =
     (case codeChurnJob_loop traverse_commits (job_id j) (directory j) (dateRanges j) [] of
        Inl e \<Rightarrow> Inl e
      | Inr finishedJobs \<Rightarrow> Inr (job_id j, directory j, finishedJobs))"

subsection \<open>\<^verbatim>\<open>codeChurnPerDelta\<close>\<close>

text \<open>
  \<^verbatim>\<open>Pool.map\<close>, as CPython's \<^verbatim>\<open>multiprocessing.pool\<close> runs it. The jobs are cut into
  tasks of \<open>chunksize\<close> consecutive jobs; a worker process runs the jobs of a task in
  turn, and the task ends at the first job that raises. Each finished task reports to
  the \<^verbatim>\<open>MapResult\<close>, which counts the tasks still out, keeps the results in their slots
  or the first exception reported, and sets its event when the count reaches 0.
  \<^verbatim>\<open>map\<close> blocks until the event is set, then returns the list or raises the exception.
  The order in which the tasks finish is not fixed by the program: it is the parameter
  \<open>order\<close> of the model, a list of task numbers in which each task occurs once.
\<close>

definition pool_chunksize :: "nat \<Rightarrow> int \<Rightarrow> nat" where
  \<comment> \<open>\<^verbatim>\<open>chunksize, extra = divmod(len(iterable), len(self._pool) * 4)\<close>, one more when
      \<open>extra\<close> is not 0; 0 when there is no job\<close>
  "pool_chunksize len processes =
     (if len = 0 then 0
      else nat (int len div (processes * 4)
                + (if int len mod (processes * 4) \<noteq> 0 then 1 else 0)))"

definition pool_get_tasks :: "nat \<Rightarrow> 'a list \<Rightarrow> 'a list list" where
  \<comment> \<open>\<^verbatim>\<open>Pool._get_tasks\<close>: slices of \<open>n\<close> items until none is left\<close>
  "pool_get_tasks n xs =
     (if n = 0 then []
      else map (\<lambda>i. take n (drop (i * n) xs)) [0 ..< (length xs + n - 1) div n])"

fun mapstar :: "('a \<Rightarrow> error + 'b) \<Rightarrow> 'a list \<Rightarrow> error + 'b list" where
  \<comment> \<open>\<^verbatim>\<open>list(map(f, chunk))\<close> in the worker process\<close>
  "mapstar f [] = Inr []"
| "mapstar f (x # xs) =
     (case f x of
        Inl e \<Rightarrow> Inl e
      | Inr y \<Rightarrow> (case mapstar f xs of Inl e \<Rightarrow> Inl e | Inr ys \<Rightarrow> Inr (y # ys)))"

record 'b map_result =
  mr_value :: "error + 'b option list"
  mr_chunksize :: nat
  mr_number_left :: int
  mr_event :: bool

definition map_result_init :: "nat \<Rightarrow> nat \<Rightarrow> 'b map_result" where
  \<comment> \<open>\<^verbatim>\<open>MapResult.__init__\<close>; \<open>_success\<close> is that \<open>_value\<close> still holds the slots\<close>
  "map_result_init chunksize len =
     \<lparr>mr_value = Inr (replicate len None),
      mr_chunksize = chunksize,
      mr_number_left =
        (if chunksize = 0 then 0
         else int (len div chunksize) + (if len mod chunksize \<noteq> 0 then 1 else 0)),
      mr_event = (chunksize = 0)\<rparr>"

definition map_result_set :: "nat \<Rightarrow> error + 'b list \<Rightarrow> 'b map_result \<Rightarrow> 'b map_result" where
  \<comment> \<open>\<^verbatim>\<open>MapResult._set(i, success_result)\<close>: only the first exception is stored, and the
      result is ready only once all tasks are done\<close>
  "map_result_set i success_result r =
     (let left = mr_number_left r - 1;
          v = (case mr_value r of
                 Inl e \<Rightarrow> Inl e
               | Inr slots \<Rightarrow>
                   (case success_result of
                      Inl e \<Rightarrow> Inl e
                    | Inr result \<Rightarrow>
                        Inr (take (i * mr_chunksize r) slots @ map Some result
                             @ drop ((i + 1) * mr_chunksize r) slots)))
      in r\<lparr>mr_value := v, mr_number_left := left, mr_event := (mr_event r \<or> left = 0)\<rparr>)"

definition pool_progress :: "('a \<Rightarrow> error + 'b) \<Rightarrow> 'a list \<Rightarrow> int \<Rightarrow> nat list \<Rightarrow> 'b map_result" where
  \<comment> \<open>the \<^verbatim>\<open>MapResult\<close> once the tasks listed have finished, in that order\<close>
  "pool_progress f jobs processes finished =
     (let chunksize = pool_chunksize (length jobs) processes;
          tasks = pool_get_tasks chunksize jobs
      in foldl (\<lambda>r i. if i < length tasks then map_result_set i (mapstar f (tasks ! i)) r else r)
           (map_result_init chunksize (length jobs)) finished)"

definition pool_map ::
  "('a \<Rightarrow> error + 'b) \<Rightarrow> 'a list \<Rightarrow> int \<Rightarrow> nat list \<Rightarrow> (error + 'b list) option"
where
  \<comment> \<open>\<^verbatim>\<open>pool.map(f, jobs)\<close> on a pool of \<open>processes\<close> workers whose tasks finish in
      \<open>order\<close>: \<open>None\<close> when the event is never set, so that \<^verbatim>\<open>map\<close> blocks for ever\<close>
  "pool_map f jobs processes order =
     (let r = pool_progress f jobs processes order
      in if mr_event r
         then (case mr_value r of
                 Inl e \<Rightarrow> Some (Inl e)
               | Inr slots \<Rightarrow> map_option Inr (those slots))
         else None)"

definition codeChurnPerDelta ::
  "int \<Rightarrow> reader \<Rightarrow> (dt \<Rightarrow> 's \<Rightarrow> error + dt) \<Rightarrow> fs \<Rightarrow> string \<Rightarrow> 's \<Rightarrow> string \<Rightarrow> int \<Rightarrow> nat list
     \<Rightarrow> ((error + (int \<times> string \<times> interval_result list) list) \<times> fs) option"
where
  \<comment> \<open>\<open>cpu_count\<close> is \<^verbatim>\<open>mp.cpu_count()\<close>; \<^verbatim>\<open>Pool(processes=n)\<close> raises for \<open>n < 1\<close>; \<open>order\<close> is
      the order in which the workers finish\<close>
  "codeChurnPerDelta cpu_count traverse_commits add files repoPath' timeDelta tempDir numDirectories
       order =
     (if \<not> numDirectories \<le> cpu_count - 1 then Some (Inl AssertionError, files)
      else
        (case get_new_temp_dir files tempDir of
           None \<Rightarrow> None
         | Some (Inl e, files1) \<Rightarrow> Some (Inl e, files1)
         | Some (Inr new_temp_dir, files1) \<Rightarrow>
             (case createMultipleRepos files1 repoPath' new_temp_dir numDirectories of
                (Inl e, files2) \<Rightarrow> Some (Inl e, files2)
              | (Inr dirs, files2) \<Rightarrow>
                  (case createJobsByTimeDelta files2 add repoPath' timeDelta dirs of
                     None \<Rightarrow> None
                   | Some (Inl e) \<Rightarrow> Some (Inl e, files2)
                   | Some (Inr jobs) \<Rightarrow>
                       if numDirectories < 1 then Some (Inl ValueError, files2)
                       else
                         (case pool_map (codeChurnJob traverse_commits) jobs numDirectories order of
                            None \<Rightarrow> None
                          | Some outcome \<Rightarrow> Some (outcome, files2))))))"

subsection \<open>The main block: monthly means\<close>

definition strftime_Ym :: "dt \<Rightarrow> string" where
  \<comment> \<open>\<^verbatim>\<open>d.strftime("%Y-%m")\<close>: four digits of the year (1 to 9999), a dash, two digits of
      the month\<close>
  "strftime_Ym d =
     (let y = nat (year d); m = nat (month d)
      in [digit_char (y div 1000 mod 10), digit_char (y div 100 mod 10),
          digit_char (y div 10 mod 10), digit_char (y mod 10), CHR ''-'',
          digit_char (m div 10 mod 10), digit_char (m mod 10)])"

definition digit_val :: "char \<Rightarrow> int option" where
  "digit_val c = map_of (zip ''0123456789'' [0, 1, 2, 3, 4, 5, 6, 7, 8, 9]) c"

fun parse_year :: "string \<Rightarrow> int option" where
  \<comment> \<open>\<^verbatim>\<open>%Y\<close>: exactly four digits\<close>
  "parse_year [a, b, c, d] =
     (case (digit_val a, digit_val b, digit_val c, digit_val d) of
        (Some a', Some b', Some c', Some d') \<Rightarrow> Some (1000 * a' + 100 * b' + 10 * c' + d')
      | _ \<Rightarrow> None)"
| "parse_year _ = None"

fun parse_month :: "string \<Rightarrow> int option" where
  \<comment> \<open>\<^verbatim>\<open>%m\<close>: \<^verbatim>\<open>1[0-2]|0[1-9]|[1-9]\<close>\<close>
  "parse_month [a] =
     (case digit_val a of Some a' \<Rightarrow> (if 1 \<le> a' then Some a' else None) | None \<Rightarrow> None)"
| "parse_month [a, b] =
     (case (digit_val a, digit_val b) of
        (Some a', Some b') \<Rightarrow>
          (if 1 \<le> 10 * a' + b' \<and> 10 * a' + b' \<le> 12 then Some (10 * a' + b') else None)
      | _ \<Rightarrow> None)"
| "parse_month _ = None"

definition strptime_Ym :: "string \<Rightarrow> error + dt" where
  \<comment> \<open>\<^verbatim>\<open>dt.strptime(s, "%Y-%m")\<close>: the first day of the month at midnight; \<^verbatim>\<open>ValueError\<close>
      when the string does not match, or the year is 0\<close>
  "strptime_Ym s =
     (if length s < 5 \<or> s ! 4 \<noteq> CHR ''-'' then Inl ValueError
      else
        (case (parse_year (take 4 s), parse_month (drop 5 s)) of
           (Some y, Some m) \<Rightarrow> (if y < 1 then Inl ValueError else Inr (datetime y m 1))
         | _ \<Rightarrow> Inl ValueError))"

text \<open>
  A \<^verbatim>\<open>float64\<close> as numpy and Python produce it here: \<open>nan\<close>, or a finite value, which
  the model keeps as an exact rational (rounding is outside the model).
\<close>

datatype float64 = NaN | Float rat

fun fl_add :: "float64 \<Rightarrow> float64 \<Rightarrow> float64" where
  "fl_add (Float a) (Float b) = Float (a + b)"
| "fl_add _ _ = NaN"

fun fl_div_len :: "float64 \<Rightarrow> nat \<Rightarrow> float64" where
  \<comment> \<open>division by a list length, used on non-empty lists only\<close>
  "fl_div_len (Float a) n = Float (a / of_nat n)"
| "fl_div_len NaN n = NaN"

definition np_mean :: "int list \<Rightarrow> float64" where
  \<comment> \<open>\<^verbatim>\<open>np.mean\<close> of a list of integers; \<open>nan\<close> on the empty list\<close>
  "np_mean xs = (if xs = [] then NaN else Float (of_int (sum_list xs) / of_nat (length xs)))"

definition py_sum :: "float64 list \<Rightarrow> float64" where
  \<comment> \<open>\<^verbatim>\<open>sum(xs)\<close>: from 0, left to right\<close>
  "py_sum xs = foldl fl_add (Float 0) xs"

fun setdefault_append :: "(string \<times> int list) list \<Rightarrow> string \<Rightarrow> int \<Rightarrow> (string \<times> int list) list" where
  \<comment> \<open>\<^verbatim>\<open>d.setdefault(k, []).append(v)\<close> on a dictionary kept in insertion order\<close>
  "setdefault_append [] k v = [(k, [v])]"
| "setdefault_append ((k', vs) # d) k v =
     (if k' = k then (k', vs @ [v]) # d else (k', vs) # setdefault_append d k v)"

type_synonym worker_result = "int \<times> string \<times> interval_result list"

definition collect_result ::
  "(string \<times> int list) list \<Rightarrow> worker_result list \<Rightarrow> error + (string \<times> int list) list"
where
  \<comment> \<open>one turn of the loop over the repositories, after \<^verbatim>\<open>codeChurnPerDelta\<close> has returned
      \<open>result\<close>; unpacking \<^verbatim>\<open>zip(*result)\<close> into three names raises on an empty \<open>result\<close>\<close>
  "collect_result combined_data result =
     (if result = [] then Inl ValueError
      else
        let data = map (\<lambda>(i, p, d). d) result;
            dataSorted = sort_key (\<lambda>x. dt_tuple (startDate x)) (concat data)
        in Inr (foldl (\<lambda>c item. setdefault_append c (strftime_Ym (startDate item)) (churn item))
                  combined_data dataSorted))"

fun collect_all ::
  "(string \<times> int list) list \<Rightarrow> worker_result list list \<Rightarrow> error + (string \<times> int list) list"
where
  "collect_all combined_data [] = Inr combined_data"
| "collect_all combined_data (result # rest) =
     (case collect_result combined_data result of
        Inl e \<Rightarrow> Inl e
      | Inr combined_data' \<Rightarrow> collect_all combined_data' rest)"

fun avg_churn_of :: "(string \<times> int list) list \<Rightarrow> string list \<Rightarrow> error + float64 list" where
  \<comment> \<open>\<^verbatim>\<open>[np.mean(combined_data[month]) for month in months]\<close>\<close>
  "avg_churn_of combined_data [] = Inr []"
| "avg_churn_of combined_data (month' # rest) =
     (case map_of combined_data month' of
        None \<Rightarrow> Inl KeyError
      | Some samples \<Rightarrow>
          (case avg_churn_of combined_data rest of
             Inl e \<Rightarrow> Inl e
           | Inr avgs \<Rightarrow> Inr (np_mean samples # avgs)))"

definition aggregate :: "worker_result list list \<Rightarrow> error + (string list \<times> float64 list)" where
  \<comment> \<open>from the results of \<^verbatim>\<open>codeChurnPerDelta\<close> for each repository, in turn, to \<open>months\<close>
      and \<open>avg_churn\<close>\<close>
  "aggregate results =
     (case collect_all [] results of
        Inl e \<Rightarrow> Inl e
      | Inr combined_data \<Rightarrow>
          (let months' = sort (map fst combined_data)
           in case avg_churn_of combined_data months' of
                Inl e \<Rightarrow> Inl e
              | Inr avg_churn \<Rightarrow> Inr (months', avg_churn)))"

subsection \<open>The main block: before and after the threshold\<close>

definition threshold_date :: dt where
  "threshold_date = datetime 2022 11 1"

fun split_by_threshold ::
  "dt \<Rightarrow> (string \<times> float64) list \<Rightarrow> float64 list \<Rightarrow> float64 list
     \<Rightarrow> error + (float64 list \<times> float64 list)"
where
  "split_by_threshold threshold [] before after = Inr (before, after)"
| "split_by_threshold threshold ((month', churn') # rest) before after =
     (case strptime_Ym month' of
        Inl e \<Rightarrow> Inl e
      | Inr month_dt \<Rightarrow>
          if dt_less month_dt threshold
          then split_by_threshold threshold rest (before @ [churn']) after
          else split_by_threshold threshold rest before (after @ [churn']))"

definition avg_or_zero :: "float64 list \<Rightarrow> float64" where
  \<comment> \<open>\<^verbatim>\<open>sum(xs) / len(xs) if xs else 0\<close>\<close>
  "avg_or_zero xs = (if xs \<noteq> [] then fl_div_len (py_sum xs) (length xs) else Float 0)"

definition summary :: "dt \<Rightarrow> string list \<Rightarrow> float64 list \<Rightarrow> error + (float64 \<times> float64)" where
  "summary threshold months' avg_churn =
     (case split_by_threshold threshold (zip months' avg_churn) [] [] of
        Inl e \<Rightarrow> Inl e
      | Inr (before, after) \<Rightarrow> Inr (avg_or_zero before, avg_or_zero after))"

section \<open>Vocabulary of the properties\<close>

text \<open>
  Notions the statements below are written in; none of them is part of the script.
\<close>

definition dt_rank :: "dt \<Rightarrow> int" where
  "dt_rank d =
     32140800000000 * year d + 2678400000000 * (month d - 1) + 86400000000 * (day d - 1)
     + 3600000000 * hour d + 60000000 * minute d + 1000000 * second d + microsecond d"

definition positive_step :: "(dt \<Rightarrow> 's \<Rightarrow> error + dt) \<Rightarrow> dt \<Rightarrow> 's \<Rightarrow> bool" where
  \<comment> \<open>adding the step to a datetime before \<open>globalEnd\<close> succeeds and gives a later datetime\<close>
  "positive_step add globalEnd step =
     (\<forall>d. valid_dt d \<and> dt_less d globalEnd \<longrightarrow>
        (\<exists>d'. add d step = Inr d' \<and> valid_dt d' \<and> dt_less d d'))"

definition div_point :: "nat \<Rightarrow> nat \<Rightarrow> nat \<Rightarrow> nat" where
  \<comment> \<open>where section \<open>i\<close> starts, when \<open>len\<close> elements are split into \<open>n\<close> sections\<close>
  "div_point len n i = i * (len div n) + min i (len mod n)"

definition interval_totals :: "int \<Rightarrow> string \<Rightarrow> dt \<times> dt \<Rightarrow> commit list \<Rightarrow> interval_result" where
  \<comment> \<open>what the worker is to report for one interval, given the commits of its window\<close>
  "interval_totals i path iv commits =
     \<lparr>res_id = i, repoPath = path, startDate = fst iv, endDate = snd iv,
      insertions = sum_list (map commit_insertions commits),
      deletions = sum_list (map commit_deletions commits),
      churn = sum_list (map commit_insertions commits) + sum_list (map commit_deletions commits)\<rparr>"

definition mean_or_zero :: "rat list \<Rightarrow> rat" where
  \<comment> \<open>the arithmetic mean of a sequence, 0 for the empty one\<close>
  "mean_or_zero xs = (if xs = [] then 0 else sum_list xs / of_nat (length xs))"

definition month_key :: "interval_result \<Rightarrow> string" where
  "month_key r = strftime_Ym (startDate r)"

definition result_items :: "worker_result list \<Rightarrow> interval_result list" where
  \<comment> \<open>the interval results of one repository, worker after worker\<close>
  "result_items result = concat (map (\<lambda>(i, p, d). d) result)"

definition all_items :: "worker_result list list \<Rightarrow> interval_result list" where
  \<comment> \<open>the interval results of all repositories and workers\<close>
  "all_items results = concat (map result_items results)"

definition samples_of :: "(string \<times> int list) list \<Rightarrow> string \<Rightarrow> int list" where
  "samples_of d k = (case map_of d k of None \<Rightarrow> [] | Some vs \<Rightarrow> vs)"

definition add_item :: "(string \<times> int list) list \<Rightarrow> interval_result \<Rightarrow> (string \<times> int list) list" where
  "add_item c item = setdefault_append c (month_key item) (churn item)"

definition dict_inv :: "(string \<times> int list) list \<Rightarrow> bool" where
  \<comment> \<open>keys occur once, and no key holds an empty list\<close>
  "dict_inv d = (distinct (map fst d) \<and> (\<forall>k vs. map_of d k = Some vs \<longrightarrow> vs \<noteq> []))"

subsection \<open>Inputs of the examples\<close>

definition fs_of :: "string list \<Rightarrow> fs" where
  \<comment> \<open>the file system with the given paths, without dangling links or refusals\<close>
  "fs_of ps = \<lparr>existing = ps, dangling = [], refused = []\<rparr>"



definition example_reader :: reader where
  "example_reader path since to =
     (if since = datetime 2020 1 1
      then Inr [\<lparr>commit_insertions = 10, commit_deletions = 2\<rparr>,
                \<lparr>commit_insertions = 5, commit_deletions = 1\<rparr>,
                \<lparr>commit_insertions = 0, commit_deletions = 0\<rparr>]
      else Inr [])"

definition example_job :: job where
  "example_job =
     \<lparr>job_id = 0,
      dateRanges = [(datetime 2020 1 1, datetime 2020 2 1), (datetime 2020 2 1, datetime 2020 3 1)],
      directory = ''w0/.git''\<rparr>"



definition example_results :: "worker_result list list" where
  "example_results =
     [[(0, ''w0/.git'',
        [\<lparr>res_id = 0, repoPath = ''w0/.git'', startDate = datetime 2020 1 1,
           endDate = datetime 2020 2 1, insertions = 15, deletions = 3, churn = 18\<rparr>,
         \<lparr>res_id = 0, repoPath = ''w0/.git'', startDate = datetime 2020 2 1,
           endDate = datetime 2020 3 1, insertions = 0, deletions = 0, churn = 0\<rparr>])],
      [(0, ''v0/.git'',
        [\<lparr>res_id = 0, repoPath = ''v0/.git'', startDate = datetime 2020 1 1,
           endDate = datetime 2020 2 1, insertions = 3, deletions = 1, churn = 4\<rparr>])]]"

section \<open>Properties\<close>

subsection \<open>Datetimes are discrete: a rank that grows with the order\<close>

lemma monthrange_bounds: "28 \<le> monthrange y m \<and> monthrange y m \<le> 31"
  by (simp add: monthrange_def)

lemma dt_rank_bound: "valid_dt d \<Longrightarrow> 0 \<le> dt_rank d \<and> dt_rank d < 321408000000000000"
  using monthrange_bounds[of "year d" "month d"]
  unfolding valid_dt_def dt_rank_def
  by (simp add: algebra_simps)

lemma dt_less_rank:
  assumes "valid_dt a" "valid_dt b" "dt_less a b"
  shows "dt_rank a < dt_rank b"
proof -
  have "day a \<le> 31" "day b \<le> 31"
    using assms monthrange_bounds[of "year a" "month a"] monthrange_bounds[of "year b" "month b"]
    by (simp_all add: valid_dt_def)
  then show ?thesis
    using assms unfolding dt_less_def dt_tuple_def valid_dt_def dt_rank_def less_prod_simp
    apply (elim conjE disjE)
    apply (simp_all add: algebra_simps)
    done
qed

lemma dt_less_irrefl: "\<not> dt_less d d"
  by (simp add: dt_less_def)

lemma valid_datetime:
  "valid_dt (datetime y m d) \<longleftrightarrow>
     1 \<le> y \<and> y \<le> 9999 \<and> 1 \<le> m \<and> m \<le> 12 \<and> 1 \<le> d \<and> d \<le> monthrange y m"
  by (auto simp: valid_dt_def datetime_def)

lemma dt_add_months_positive:
  assumes "0 < n" and "year globalEnd + n div 12 < 9999"
  shows "positive_step dt_add globalEnd (relativedelta_months n)"
  unfolding positive_step_def
proof (intro allI impI)
  fix d assume d: "valid_dt d \<and> dt_less d globalEnd"
  then have y: "year d \<le> year globalEnd"
    by (auto simp: dt_less_def dt_tuple_def)
  define k where "k = n mod 12"
  define q where "q = n div 12"
  have r: "years (relativedelta_months n) = q" "months (relativedelta_months n) = k"
    using assms(1) by (simp_all add: relativedelta_months_def Let_def k_def q_def)
  have k: "0 \<le> k" "k < 12" by (simp_all add: k_def)
  have q: "0 \<le> q" "year globalEnd + q < 9999" using assms by (simp_all add: q_def)
  have nz: "q = 0 \<Longrightarrow> 0 < k"
    using assms(1) div_mult_mod_eq[of n 12] by (simp add: k_def q_def)
  have mr: "\<And>y m. 1 \<le> monthrange y m"
    using monthrange_bounds by (simp add: order_trans[of 1 28])
  show "\<exists>d'. dt_add d (relativedelta_months n) = Inr d' \<and> valid_dt d' \<and> dt_less d d'"
  proof (cases "12 < month d + k")
    case True
    then show ?thesis
      using d y k q mr
      by (simp add: dt_add_def r Let_def valid_dt_def dt_less_def dt_tuple_def)
  next
    case False
    then show ?thesis
      using d y k q mr nz
      by (cases "q = 0") (simp_all add: dt_add_def r Let_def valid_dt_def dt_less_def dt_tuple_def)
  qed
qed

subsection \<open>The interval generator\<close>

lemma createMonthList_loop_returns:
  assumes pos: "positive_step add e s"
  shows "valid_dt c \<Longrightarrow>
    \<exists>ys. createMonthList_loop add e s c acc = Some (Inr (acc @ ys @ [e])) \<and>
         successively dt_less (ys @ [e]) \<and>
         hd (ys @ [e]) = (if dt_less c e then c else e)"
proof (induction "nat (321408000000000000 - dt_rank c)" arbitrary: c acc rule: less_induct)
  case less
  show ?case
  proof (cases "dt_less c e")
    case False
    then have "createMonthList_loop add e s c acc = Some (Inr (acc @ [] @ [e]))"
      by (subst createMonthList_loop.simps) simp
    then show ?thesis using False by (intro exI[of _ "[]"]) simp
  next
    case True
    with pos less.prems obtain c' where c': "add c s = Inr c'" "valid_dt c'" "dt_less c c'"
      unfolding positive_step_def by blast
    have "nat (321408000000000000 - dt_rank c') < nat (321408000000000000 - dt_rank c)"
      using dt_less_rank[OF less.prems c'(2) c'(3)] dt_rank_bound[OF c'(2)] by simp
    from less.hyps[OF this c'(2), of "acc @ [c]"] obtain ys where
      ys: "createMonthList_loop add e s c' (acc @ [c]) = Some (Inr ((acc @ [c]) @ ys @ [e]))"
          "successively dt_less (ys @ [e])"
          "hd (ys @ [e]) = (if dt_less c' e then c' else e)"
      by blast
    have "createMonthList_loop add e s c acc = Some (Inr (acc @ (c # ys) @ [e]))"
      using True c'(1) ys(1) by (subst createMonthList_loop.simps) simp
    moreover have "dt_less c (hd (ys @ [e]))"
      using ys(3) True c'(3) by simp
    then have "successively dt_less ((c # ys) @ [e])"
      using ys(2) by (cases "ys @ [e]") simp_all
    moreover have "hd ((c # ys) @ [e]) = (if dt_less c e then c else e)"
      using True by simp
    ultimately show ?thesis by blast
  qed
qed

text \<open>
  Claim C2. From a valid \<open>globalStart\<close> before \<open>globalEnd\<close>, with a positive step (adding it to
  a datetime before \<open>globalEnd\<close> succeeds and moves forward), \<^verbatim>\<open>createMonthList\<close> returns,
  and the intervals built from its list are at least one, start at \<open>globalStart\<close>, end at
  \<open>globalEnd\<close> (whether or not \<open>globalEnd\<close> is a whole number of steps away), each begin
  where the one before ended, and each have their start before their end.
\<close>

theorem createMonthList_intervals:
  assumes "valid_dt globalStart" and "dt_less globalStart globalEnd"
    and "positive_step add globalEnd step"
  shows "\<exists>monthList. createMonthList add globalStart globalEnd step = Some (Inr monthList) \<and>
     (let ivs = monthPairs_of monthList in
        ivs \<noteq> [] \<and> fst (hd ivs) = globalStart \<and> snd (last ivs) = globalEnd \<and>
        (\<forall>i. Suc i < length ivs \<longrightarrow> snd (ivs ! i) = fst (ivs ! Suc i)) \<and>
        (\<forall>(s, e) \<in> set ivs. dt_less s e))"
proof -
  from createMonthList_loop_returns[OF assms(3) assms(1), of "[]"] obtain ys where
    ys: "createMonthList add globalStart globalEnd step = Some (Inr (ys @ [globalEnd]))"
        "successively dt_less (ys @ [globalEnd])"
        "hd (ys @ [globalEnd]) = globalStart"
    using assms(2) by (auto simp: createMonthList_def)
  define ml where "ml = ys @ [globalEnd]"
  have ne: "ys \<noteq> []"
    using ys(3) assms(2) dt_less_irrefl by (cases ys) auto
  then have len: "2 \<le> length ml" by (cases ys) (simp_all add: ml_def)
  have hd: "ml ! 0 = globalStart"
    using ys(3) ne by (simp add: ml_def hd_conv_nth nth_append)
  have lst: "ml ! (length ml - 1) = globalEnd"
    by (simp add: ml_def)
  have succ: "\<And>i. Suc i < length ml \<Longrightarrow> dt_less (ml ! i) (ml ! Suc i)"
    using ys(2) unfolding ml_def[symmetric] by (rule successively_nth)
  let ?ivs = "monthPairs_of ml"
  have n: "length ?ivs = length ml - 1" by (simp add: monthPairs_of_def)
  have nth: "\<And>i. i < length ml - 1 \<Longrightarrow> ?ivs ! i = (ml ! i, ml ! Suc i)"
    by (simp add: monthPairs_of_def)
  have 1: "?ivs \<noteq> []" using n len by auto
  have 2: "fst (hd ?ivs) = globalStart"
    using 1 nth[of 0] len hd by (simp add: hd_conv_nth)
  have 3: "snd (last ?ivs) = globalEnd"
    using 1 nth[of "length ml - 2"] len lst n
    by (simp add: last_conv_nth Suc_diff_Suc numeral_2_eq_2)
  have 4: "\<forall>i. Suc i < length ?ivs \<longrightarrow> snd (?ivs ! i) = fst (?ivs ! Suc i)"
    using nth n by simp
  have 5: "\<forall>(s, e) \<in> set ?ivs. dt_less s e"
  proof -
    have "\<And>p. p \<in> set ?ivs \<Longrightarrow> dt_less (fst p) (snd p)"
    proof -
      fix p assume "p \<in> set ?ivs"
      then obtain i where "i < length ?ivs" "p = ?ivs ! i" by (auto simp: in_set_conv_nth)
      then show "dt_less (fst p) (snd p)" using nth[of i] succ[of i] n by simp
    qed
    then show ?thesis by auto
  qed
  show ?thesis
    using ys(1) 1 2 3 4 5 unfolding ml_def[symmetric] by (simp add: Let_def)
qed

text \<open>
  The theorem at the window 2020-01-01 to 2020-03-15 with a step of one month, and
  the value computed there: three intervals, the last one shorter than a month.
\<close>

theorem createMonthList_intervals_witness:
  "valid_dt (datetime 2020 1 1) \<and> dt_less (datetime 2020 1 1) (datetime 2020 3 15) \<and>
   positive_step dt_add (datetime 2020 3 15) (relativedelta_months 1) \<and>
   (\<exists>monthList.
      createMonthList dt_add (datetime 2020 1 1) (datetime 2020 3 15) (relativedelta_months 1)
        = Some (Inr monthList) \<and>
      (let ivs = monthPairs_of monthList in
         ivs \<noteq> [] \<and> fst (hd ivs) = datetime 2020 1 1 \<and> snd (last ivs) = datetime 2020 3 15 \<and>
         (\<forall>i. Suc i < length ivs \<longrightarrow> snd (ivs ! i) = fst (ivs ! Suc i)) \<and>
         (\<forall>(s, e) \<in> set ivs. dt_less s e)))"
proof -
  have h1: "valid_dt (datetime 2020 1 1)"
    by (simp add: valid_datetime monthrange_def)
  have h2: "dt_less (datetime 2020 1 1) (datetime 2020 3 15)"
    by (simp add: dt_less_def dt_tuple_def datetime_def)
  have h3: "positive_step dt_add (datetime 2020 3 15) (relativedelta_months 1)"
    by (rule dt_add_months_positive) (simp_all add: datetime_def)
  show ?thesis
    using createMonthList_intervals[OF h1 h2 h3] h1 h2 h3 by blast
qed

lemma createMonthList_example:
  "createMonthList dt_add (datetime 2020 1 1) (datetime 2020 3 15) (relativedelta_months 1)
     = Some (Inr [datetime 2020 1 1, datetime 2020 2 1, datetime 2020 3 1, datetime 2020 3 15])
   \<and> monthPairs_of [datetime 2020 1 1, datetime 2020 2 1, datetime 2020 3 1, datetime 2020 3 15]
     = [(datetime 2020 1 1, datetime 2020 2 1), (datetime 2020 2 1, datetime 2020 3 1),
        (datetime 2020 3 1, datetime 2020 3 15)]"
  by code_simp

text \<open>
  Claim C6 says that a window with \<open>globalStart \<ge> globalEnd\<close> is refused with
  \<^verbatim>\<open>InvalidRange\<close>. The code has no such check: for the window from 2025-02-01 back to
  2019-10-01 \<^verbatim>\<open>createMonthList\<close> returns the one-element list of the end date.
\<close>

theorem createMonthList_reversed_window_returns:
  "createMonthList dt_add (datetime 2025 2 1) (datetime 2019 10 1) (relativedelta_months 1)
     = Some (Inr [datetime 2019 10 1])"
  by code_simp

text \<open>
  Claim C6 as amended. When \<open>globalStart\<close> is not before \<open>globalEnd\<close>,
  \<^verbatim>\<open>createMonthList\<close> raises nothing: it returns the list holding \<open>globalEnd\<close> alone,
  from which no interval is built.
\<close>

theorem createMonthList_empty_window:
  assumes "\<not> dt_less globalStart globalEnd"
  shows "createMonthList add globalStart globalEnd step = Some (Inr [globalEnd]) \<and>
         monthPairs_of [globalEnd] = []"
  using assms
  by (simp add: createMonthList_def createMonthList_loop.simps monthPairs_of_def)

theorem createMonthList_empty_window_witness:
  "\<not> dt_less (datetime 2020 1 1) (datetime 2020 1 1) \<and>
   createMonthList dt_add (datetime 2020 1 1) (datetime 2020 1 1) (relativedelta_months 1)
     = Some (Inr [datetime 2020 1 1]) \<and>
   monthPairs_of [datetime 2020 1 1] = []"
proof -
  have h: "\<not> dt_less (datetime 2020 1 1) (datetime 2020 1 1)"
    by (rule dt_less_irrefl)
  show ?thesis
    using createMonthList_empty_window[OF h, of dt_add "relativedelta_months 1"] h by simp
qed

subsection \<open>The versioned temporary directory\<close>

lemma digit_char_inj:
  assumes "a < 10" "b < 10" "digit_char a = digit_char b"
  shows "a = b"
proof -
  have "distinct ''0123456789''" by simp
  moreover have "a < length ''0123456789''" "b < length ''0123456789''"
    using assms by simp_all
  ultimately show ?thesis
    using assms(3) unfolding digit_char_def by (simp only: nth_eq_iff_index_eq)
qed

lemma str_nat_not_Nil: "str_nat n \<noteq> []"
  by (subst str_nat.simps) simp

lemma str_nat_inj: "str_nat n = str_nat m \<Longrightarrow> n = m"
proof (induction n arbitrary: m rule: str_nat.induct)
  case (1 n)
  show ?case
  proof (cases "n < 10")
    case n: True
    show ?thesis
    proof (cases "m < 10")
      case True
      then show ?thesis
        using "1.prems" n digit_char_inj
        by (simp add: str_nat.simps[of n] str_nat.simps[of m])
    next
      case False
      then show ?thesis
        using "1.prems" n str_nat_not_Nil[of "m div 10"]
        by (simp add: str_nat.simps[of n] str_nat.simps[of m])
    qed
  next
    case n: False
    show ?thesis
    proof (cases "m < 10")
      case True
      then show ?thesis
        using "1.prems" n str_nat_not_Nil[of "n div 10"]
        by (simp add: str_nat.simps[of n] str_nat.simps[of m])
    next
      case False
      then have "str_nat (n div 10) = str_nat (m div 10)"
        and d: "digit_char (n mod 10) = digit_char (m mod 10)"
        using "1.prems" n by (simp_all add: str_nat.simps[of n] str_nat.simps[of m])
      then have "n div 10 = m div 10" using "1.IH"[OF n] by simp
      moreover have "n mod 10 = m mod 10"
        using d by (intro digit_char_inj) simp_all
      ultimately show ?thesis by (metis div_mult_mod_eq)
    qed
  qed
qed

lemma temp_dir_name_inj: "inj (temp_dir_name base_dir)"
  by (rule injI) (simp add: temp_dir_name_def str_nat_inj)

lemma unused_version_exists: "\<exists>n. \<not> os_path_exists files (temp_dir_name base_dir n)"
proof (rule ccontr)
  assume "\<not> ?thesis"
  then have "range (temp_dir_name base_dir) \<subseteq> set (existing files)"
    by (auto simp: os_path_exists_def)
  then have "finite (range (temp_dir_name base_dir))"
    by (rule finite_subset) simp
  then have "finite (UNIV :: nat set)"
    using temp_dir_name_inj by (rule finite_imageD)
  then show False by simp
qed

lemma get_new_temp_dir_loop_finds:
  assumes "\<not> os_path_exists files (temp_dir_name base_dir N)"
    and "\<forall>k. version \<le> k \<and> k < N \<longrightarrow> os_path_exists files (temp_dir_name base_dir k)"
    and "version \<le> N"
  shows "get_new_temp_dir_loop files base_dir version = Some (temp_dir_name base_dir N)"
  using assms
proof (induction "N - version" arbitrary: version)
  case 0
  then have "version = N" by simp
  then show ?case
    using "0.prems"(1) by (subst get_new_temp_dir_loop.simps) simp
next
  case (Suc d)
  then have lt: "version < N" by simp
  then have ex: "os_path_exists files (temp_dir_name base_dir version)"
    using Suc.prems(2) by simp
  have "get_new_temp_dir_loop files base_dir (version + 1) = Some (temp_dir_name base_dir N)"
    using Suc.hyps(2) Suc.prems lt by (intro Suc.hyps(1)) simp_all
  then show ?case
    using ex by (subst get_new_temp_dir_loop.simps) simp
qed

text \<open>
  Claim C8 says that the routine returns a fresh versioned path for every base directory
  path. It creates the path with \<^verbatim>\<open>os.mkdir\<close>, which makes no parent: on a file system
  that has \<open>repos/all\<close> but no \<open>repos/temp\<close>, the base path \<open>repos/temp/tempDir\<close> of the
  script makes it raise \<^verbatim>\<open>FileNotFoundError\<close>, and nothing is created.
\<close>

theorem get_new_temp_dir_missing_parent:
  "get_new_temp_dir (fs_of [''repos'', ''repos/all'', ''repos/all/a'']) ''repos/temp/tempDir''
   = Some (Inl FileNotFoundError, fs_of [''repos'', ''repos/all'', ''repos/all/a''])"
  by code_simp

text \<open>
  Claim C8 as amended. On every file system and for every base path the scan ends, at
  the path \<open>base_dir_vN\<close> for the least \<open>N\<close> whose path does not exist. When the
  directory that is to hold it exists, the path is not a dangling link and the operating
  system does not refuse it, the routine creates that path, the one path added to the file
  system, and returns it. Otherwise \<^verbatim>\<open>os.mkdir\<close> raises (\<^verbatim>\<open>FileNotFoundError\<close> for a
  missing parent, \<^verbatim>\<open>FileExistsError\<close> for a dangling link, else the refusal of the
  operating system) and the file system is as it was. An existing path is never returned
  nor created again.
\<close>

theorem get_new_temp_dir_first_free:
  "\<exists>N. \<not> os_path_exists files (temp_dir_name base_dir N) \<and>
       (\<forall>k < N. os_path_exists files (temp_dir_name base_dir k)) \<and>
       get_new_temp_dir files base_dir =
         Some (if parent_missing files (temp_dir_name base_dir N)
               then (Inl FileNotFoundError, files)
               else if temp_dir_name base_dir N \<in> set (dangling files)
               then (Inl FileExistsError, files)
               else
                 (case map_of (refused files) (temp_dir_name base_dir N) of
                    Some e \<Rightarrow> (Inl e, files)
                  | None \<Rightarrow>
                      (Inr (temp_dir_name base_dir N),
                       files\<lparr>existing := existing files @ [temp_dir_name base_dir N]\<rparr>)))"
proof -
  define N where "N = (LEAST n. \<not> os_path_exists files (temp_dir_name base_dir n))"
  have free: "\<not> os_path_exists files (temp_dir_name base_dir N)"
    unfolding N_def using unused_version_exists by (rule LeastI_ex)
  have used: "\<forall>k < N. os_path_exists files (temp_dir_name base_dir k)"
    unfolding N_def using not_less_Least by blast
  have loop: "get_new_temp_dir_loop files base_dir 0 = Some (temp_dir_name base_dir N)"
    using free used by (intro get_new_temp_dir_loop_finds) simp_all
  have "get_new_temp_dir files base_dir =
         Some (if parent_missing files (temp_dir_name base_dir N)
               then (Inl FileNotFoundError, files)
               else if temp_dir_name base_dir N \<in> set (dangling files)
               then (Inl FileExistsError, files)
               else
                 (case map_of (refused files) (temp_dir_name base_dir N) of
                    Some e \<Rightarrow> (Inl e, files)
                  | None \<Rightarrow>
                      (Inr (temp_dir_name base_dir N),
                       files\<lparr>existing := existing files @ [temp_dir_name base_dir N]\<rparr>)))"
    using free
    by (simp add: get_new_temp_dir_def loop os_mkdir_def os_path_exists_def split: option.split)
  then show ?thesis using free used by blast
qed

text \<open>
  The theorem on a file system where the parent directory and versions 0 and 1 of the
  base path exist, and the value computed there: version 2 is created. A version that is
  a dangling link stops the scan and is refused by \<^verbatim>\<open>os.mkdir\<close>.
\<close>

lemma get_new_temp_dir_example:
  "get_new_temp_dir (fs_of [''repos/temp'', ''repos/temp/tempDir_v0'', ''repos/temp/tempDir_v1''])
     ''repos/temp/tempDir''
   = Some (Inr ''repos/temp/tempDir_v2'',
           fs_of [''repos/temp'', ''repos/temp/tempDir_v0'', ''repos/temp/tempDir_v1'',
                  ''repos/temp/tempDir_v2''])"
  by code_simp

lemma get_new_temp_dir_dangling_example:
  "get_new_temp_dir
     \<lparr>existing = [''repos/temp'', ''repos/temp/tempDir_v0''],
      dangling = [''repos/temp/tempDir_v1''], refused = []\<rparr>
     ''repos/temp/tempDir''
   = Some (Inl FileExistsError,
           \<lparr>existing = [''repos/temp'', ''repos/temp/tempDir_v0''],
            dangling = [''repos/temp/tempDir_v1''], refused = []\<rparr>)"
  by code_simp

theorem get_new_temp_dir_first_free_witness:
  "get_new_temp_dir (fs_of [''repos/temp'', ''repos/temp/tempDir_v0'', ''repos/temp/tempDir_v1''])
     ''repos/temp/tempDir''
   = Some (Inr ''repos/temp/tempDir_v2'',
           fs_of [''repos/temp'', ''repos/temp/tempDir_v0'', ''repos/temp/tempDir_v1'',
                  ''repos/temp/tempDir_v2'']) \<and>
   (\<exists>N. \<not> os_path_exists
            (fs_of [''repos/temp'', ''repos/temp/tempDir_v0'', ''repos/temp/tempDir_v1''])
            (temp_dir_name ''repos/temp/tempDir'' N) \<and>
        (\<forall>k < N. os_path_exists
                    (fs_of [''repos/temp'', ''repos/temp/tempDir_v0'', ''repos/temp/tempDir_v1''])
                    (temp_dir_name ''repos/temp/tempDir'' k)) \<and>
        temp_dir_name ''repos/temp/tempDir'' N = ''repos/temp/tempDir_v2'')"
proof -
  let ?files = "fs_of [''repos/temp'', ''repos/temp/tempDir_v0'', ''repos/temp/tempDir_v1'']"
  from get_new_temp_dir_first_free[of ?files "''repos/temp/tempDir''"] obtain N where
    N: "\<not> os_path_exists ?files (temp_dir_name ''repos/temp/tempDir'' N)"
       "\<forall>k < N. os_path_exists ?files (temp_dir_name ''repos/temp/tempDir'' k)"
       "get_new_temp_dir ?files ''repos/temp/tempDir'' =
         Some (if parent_missing ?files (temp_dir_name ''repos/temp/tempDir'' N)
               then (Inl FileNotFoundError, ?files)
               else if temp_dir_name ''repos/temp/tempDir'' N \<in> set (dangling ?files)
               then (Inl FileExistsError, ?files)
               else
                 (case map_of (refused ?files) (temp_dir_name ''repos/temp/tempDir'' N) of
                    Some e \<Rightarrow> (Inl e, ?files)
                  | None \<Rightarrow>
                      (Inr (temp_dir_name ''repos/temp/tempDir'' N),
                       ?files\<lparr>existing := existing ?files @ [temp_dir_name ''repos/temp/tempDir'' N]\<rparr>)))"
    by blast
  have "temp_dir_name ''repos/temp/tempDir'' N = ''repos/temp/tempDir_v2''"
    using N(3) unfolding get_new_temp_dir_example
    by (auto simp: fs_of_def split: if_splits option.splits)
  then show ?thesis
    using N(1,2) get_new_temp_dir_example by blast
qed

subsection \<open>The partition of the intervals among the workers\<close>

lemma length_cumsum_from: "length (cumsum_from a xs) = length xs"
  by (induction xs arbitrary: a) simp_all

lemma cumsum_from_nth:
  "i < length xs \<Longrightarrow> cumsum_from a xs ! i = a + sum_list (take (Suc i) xs)"
proof (induction xs arbitrary: a i)
  case Nil
  then show ?case by simp
next
  case (Cons x xs)
  then show ?case by (cases i) simp_all
qed

lemma sum_list_take_sizes:
  assumes "ex \<le> n" "i \<le> n"
  shows "sum_list (take i (replicate ex (Suc q) @ replicate (n - ex) q)) = i * q + min i ex"
proof (cases "i \<le> ex")
  case True
  then show ?thesis by (simp add: min_def sum_list_replicate)
next
  case False
  then have "min i ex = ex" "min (i - ex) (n - ex) = i - ex"
    using assms by simp_all
  then show ?thesis
    using False by (simp add: sum_list_replicate algebra_simps)
qed

lemma concat_slices:
  assumes "\<And>i. i < k \<Longrightarrow> f i \<le> f (Suc i)" and "f 0 = 0"
  shows "concat (map (\<lambda>i. take (f (Suc i) - f i) (drop (f i) xs)) [0 ..< k]) = take (f k) xs"
  using assms(1)
proof (induction k)
  case 0
  then show ?case using assms(2) by simp
next
  case (Suc k)
  have "take (f k) xs @ take (f (Suc k) - f k) (drop (f k) xs) = take (f k + (f (Suc k) - f k)) xs"
    by (simp add: take_add)
  moreover have "f k + (f (Suc k) - f k) = f (Suc k)"
    using Suc.prems[of k] by simp
  ultimately show ?case using Suc by simp
qed

lemma div_point_bounds:
  assumes "0 < n" "i < n"
  shows "div_point len n (Suc i) \<le> len"
    and "div_point len n (Suc i) - div_point len n i
           = len div n + (if i < len mod n then 1 else 0)"
proof -
  have "Suc i * (len div n) + min (Suc i) (len mod n) \<le> n * (len div n) + len mod n"
    using assms by (intro add_mono mult_le_mono1) simp_all
  then show "div_point len n (Suc i) \<le> len"
    by (simp add: div_point_def)
  show "div_point len n (Suc i) - div_point len n i
           = len div n + (if i < len mod n then 1 else 0)"
    by (simp add: div_point_def min_def)
qed

lemma np_array_split_sections:
  assumes "0 < n"
  shows "np_array_split ary (int n) =
     Inr (map (\<lambda>i. take (div_point (length ary) n (Suc i) - div_point (length ary) n i)
                      (drop (div_point (length ary) n i) ary)) [0 ..< n])"
proof -
  define q where "q = length ary div n"
  define ex where "ex = length ary mod n"
  define sizes where "sizes = replicate ex (Suc q) @ replicate (n - ex) q"
  have ex: "ex \<le> n" using assms by (simp add: ex_def less_imp_le)
  have len: "length sizes = n" using ex by (simp add: sizes_def)
  define dps where "dps = cumsum_from 0 ([0] @ sizes)"
  have dp: "dps ! i = div_point (length ary) n i" if "i \<le> n" for i
  proof -
    have "dps ! i = 0 + sum_list (take (Suc i) ([0] @ sizes))"
      unfolding dps_def using that len by (intro cumsum_from_nth) simp
    also have "\<dots> = sum_list (take i sizes)" by simp
    also have "\<dots> = i * q + min i ex"
      unfolding sizes_def using ex that by (rule sum_list_take_sizes)
    finally show ?thesis by (simp add: div_point_def q_def ex_def)
  qed
  have "np_array_split ary (int n)
      = Inr (map (\<lambda>i. take (dps ! (i + 1) - dps ! i) (drop (dps ! i) ary)) [0 ..< n])"
    using assms by (simp add: np_array_split_def Let_def dps_def sizes_def q_def ex_def)
  also have "map (\<lambda>i. take (dps ! (i + 1) - dps ! i) (drop (dps ! i) ary)) [0 ..< n]
      = map (\<lambda>i. take (div_point (length ary) n (Suc i) - div_point (length ary) n i)
                   (drop (div_point (length ary) n i) ary)) [0 ..< n]"
    by (rule map_cong) (simp_all add: dp)
  finally show ?thesis .
qed

lemma np_array_split_correct:
  assumes "0 < n"
  shows "\<exists>chunks. np_array_split ary (int n) = Inr chunks \<and> length chunks = n \<and>
           concat chunks = ary \<and>
           (\<forall>i < n. length (chunks ! i)
                      = length ary div n + (if i < length ary mod n then 1 else 0))"
proof -
  let ?f = "div_point (length ary) n"
  let ?chunks = "map (\<lambda>i. take (?f (Suc i) - ?f i) (drop (?f i) ary)) [0 ..< n]"
  have mono: "\<And>i. i < n \<Longrightarrow> ?f i \<le> ?f (Suc i)"
    by (simp add: div_point_def min_def)
  have f0: "?f 0 = 0" by (simp add: div_point_def)
  have "concat ?chunks = take (?f n) ary"
    using concat_slices[of n ?f ary, OF mono f0] by simp
  moreover have "?f n = length ary"
  proof -
    have "length ary mod n < n" using assms by simp
    then have "min n (length ary mod n) = length ary mod n" by simp
    then show ?thesis by (simp add: div_point_def)
  qed
  ultimately have cc: "concat ?chunks = ary" by simp
  have sz: "length (?chunks ! i) = length ary div n + (if i < length ary mod n then 1 else 0)"
    if "i < n" for i
  proof -
    have "?f (Suc i) - ?f i \<le> length ary - ?f i"
      using div_point_bounds(1)[OF assms that, of "length ary"] by simp
    then show ?thesis
      using that div_point_bounds(2)[OF assms that, of "length ary"] by (simp add: min_def)
  qed
  show ?thesis
    using np_array_split_sections[OF assms, of ary] cc sz by (intro exI[of _ ?chunks]) simp
qed

text \<open>
  Claim C4. For every interval sequence and every non-empty list of snapshot
  directories the partition returns one job per directory, job \<open>i\<close> carrying the id
  \<open>i\<close> and directory \<open>i\<close>; the date ranges of the jobs, in the order of the jobs, put
  end to end are the interval sequence (so every interval is in exactly one job, in its
  original order, and the lengths add up); the first \<open>len mod n\<close> jobs get
  \<open>len div n + 1\<close> intervals and the others \<open>len div n\<close>; with fewer intervals than
  directories some job gets none.
\<close>

theorem jobList_of_partition:
  assumes "directories \<noteq> []"
  shows "\<exists>jobs. jobList_of monthPairs directories = Inr jobs \<and>
     length jobs = length directories \<and>
     (\<forall>i < length jobs.
        job_id (jobs ! i) = int i \<and> directory (jobs ! i) = directories ! i \<and>
        length (dateRanges (jobs ! i))
          = length monthPairs div length directories
            + (if i < length monthPairs mod length directories then 1 else 0)) \<and>
     concat (map dateRanges jobs) = monthPairs \<and>
     sum_list (map (\<lambda>j. length (dateRanges j)) jobs) = length monthPairs \<and>
     (length monthPairs < length directories \<longrightarrow> (\<exists>j \<in> set jobs. dateRanges j = []))"
proof -
  define n where "n = length directories"
  have n: "0 < n" using assms by (simp add: n_def)
  from np_array_split_correct[OF n, of monthPairs] obtain chunks where
    ch: "np_array_split monthPairs (int n) = Inr chunks" "length chunks = n"
        "concat chunks = monthPairs"
        "\<forall>i < n. length (chunks ! i)
                   = length monthPairs div n + (if i < length monthPairs mod n then 1 else 0)"
    by blast
  define jobs where "jobs = map (\<lambda>(i, dateRanges').
        \<lparr>job_id = int i, dateRanges = dateRanges', directory = directories ! i\<rparr>)
      (zip [0 ..< length directories] chunks)"
  have 0: "jobList_of monthPairs directories = Inr jobs"
    using ch(1) by (simp add: jobList_of_def jobs_def n_def)
  have 1: "length jobs = n" using ch(2) by (simp add: jobs_def n_def)
  have nth: "jobs ! i = \<lparr>job_id = int i, dateRanges = chunks ! i, directory = directories ! i\<rparr>"
    if "i < n" for i
    using that ch(2) by (simp add: jobs_def n_def)
  have dr: "map dateRanges jobs = chunks"
    using 1 ch(2) nth by (intro nth_equalityI) simp_all
  have 2: "\<forall>i < length jobs.
        job_id (jobs ! i) = int i \<and> directory (jobs ! i) = directories ! i \<and>
        length (dateRanges (jobs ! i))
          = length monthPairs div n + (if i < length monthPairs mod n then 1 else 0)"
    using 1 nth ch(4) by simp
  have 3: "concat (map dateRanges jobs) = monthPairs"
    using dr ch(3) by simp
  have "sum_list (map length (map dateRanges jobs)) = length (concat (map dateRanges jobs))"
    by (simp add: length_concat)
  then have 4: "sum_list (map (\<lambda>j. length (dateRanges j)) jobs) = length monthPairs"
    using 3 by (simp add: comp_def)
  have 5: "\<exists>j \<in> set jobs. dateRanges j = []" if "length monthPairs < n"
  proof -
    have "length (dateRanges (jobs ! (n - 1))) = 0"
      using 2 1 n that by simp
    moreover have "jobs ! (n - 1) \<in> set jobs"
      using 1 n by simp
    ultimately show ?thesis by auto
  qed
  show ?thesis
    using 0 1 2 3 4 5 unfolding n_def by blast
qed

text \<open>
  The theorem on one interval and two directories, and the value computed there: the
  second job has no interval.
\<close>

theorem jobList_of_partition_witness:
  "[''w0/.git'', ''w1/.git''] \<noteq> [] \<and>
   (\<exists>jobs. jobList_of [(datetime 2020 1 1, datetime 2020 2 1)] [''w0/.git'', ''w1/.git'']
            = Inr jobs \<and>
      length jobs = length [''w0/.git'', ''w1/.git''] \<and>
      concat (map dateRanges jobs) = [(datetime 2020 1 1, datetime 2020 2 1)] \<and>
      (\<exists>j \<in> set jobs. dateRanges j = []))"
proof -
  have h: "[''w0/.git'', ''w1/.git''] \<noteq> []" by simp
  show ?thesis
    using jobList_of_partition[OF h, of "[(datetime 2020 1 1, datetime 2020 2 1)]"]
    by auto
qed

lemma jobList_of_example:
  "jobList_of [(datetime 2020 1 1, datetime 2020 2 1), (datetime 2020 2 1, datetime 2020 3 1),
               (datetime 2020 3 1, datetime 2020 3 15)] [''w0/.git'', ''w1/.git'']
   = Inr [\<lparr>job_id = 0,
            dateRanges = [(datetime 2020 1 1, datetime 2020 2 1), (datetime 2020 2 1, datetime 2020 3 1)],
            directory = ''w0/.git''\<rparr>,
          \<lparr>job_id = 1, dateRanges = [(datetime 2020 3 1, datetime 2020 3 15)],
            directory = ''w1/.git''\<rparr>]"
  by code_simp

subsection \<open>The worker\<close>

lemma foldl_add_commit:
  "foldl add_commit temp commits =
     temp\<lparr>insertions := insertions temp + sum_list (map commit_insertions commits),
          deletions := deletions temp + sum_list (map commit_deletions commits)\<rparr>"
  by (induction commits arbitrary: temp) (simp_all add: add_commit_def algebra_simps)

lemma codeChurnJob_loop_results:
  assumes "\<forall>iv \<in> set ivs. \<exists>commits. traverse path (fst iv) (snd iv) = Inr commits"
  shows "codeChurnJob_loop traverse i path ivs finished =
     Inr (finished @ map (\<lambda>iv. interval_totals i path iv
                                 (projr (traverse path (fst iv) (snd iv)))) ivs)"
  using assms
proof (induction ivs arbitrary: finished)
  case Nil
  then show ?case by simp
next
  case (Cons iv ivs)
  obtain s e where iv: "iv = (s, e)" by (cases iv)
  from Cons.prems obtain commits where c: "traverse path s e = Inr commits"
    by (auto simp: iv)
  have rest: "\<forall>iv \<in> set ivs. \<exists>commits. traverse path (fst iv) (snd iv) = Inr commits"
    using Cons.prems by simp
  show ?case
    by (simp add: iv c Cons.IH[OF rest] foldl_add_commit interval_totals_def)
qed

text \<open>
  Claim C5. When the history reader answers for every interval of the job, the worker
  returns the job's id and directory with one result per interval, in the order of the
  intervals: the result of an interval carries that interval, the sum of the insertions
  and the sum of the deletions of the commits of its own window, and their sum as churn.
  Hence churn is insertions plus deletions in every result, and a window without commits
  gives zero for all three.
\<close>

theorem codeChurnJob_results:
  assumes "\<forall>iv \<in> set (dateRanges j). \<exists>commits. traverse (directory j) (fst iv) (snd iv) = Inr commits"
  shows "\<exists>finished. codeChurnJob traverse j = Inr (job_id j, directory j, finished) \<and>
     finished = map (\<lambda>iv. interval_totals (job_id j) (directory j) iv
                             (projr (traverse (directory j) (fst iv) (snd iv)))) (dateRanges j) \<and>
     length finished = length (dateRanges j) \<and>
     (\<forall>r \<in> set finished. churn r = insertions r + deletions r) \<and>
     (\<forall>i < length finished.
        traverse (directory j) (fst (dateRanges j ! i)) (snd (dateRanges j ! i)) = Inr [] \<longrightarrow>
        insertions (finished ! i) = 0 \<and> deletions (finished ! i) = 0 \<and> churn (finished ! i) = 0)"
proof -
  let ?finished = "map (\<lambda>iv. interval_totals (job_id j) (directory j) iv
                             (projr (traverse (directory j) (fst iv) (snd iv)))) (dateRanges j)"
  have "codeChurnJob traverse j = Inr (job_id j, directory j, ?finished)"
    using codeChurnJob_loop_results[of "dateRanges j" traverse "directory j" "job_id j" "[]", OF assms]
    by (simp add: codeChurnJob_def)
  moreover have "\<forall>r \<in> set ?finished. churn r = insertions r + deletions r"
    by (auto simp: interval_totals_def)
  moreover have "\<forall>i < length ?finished.
        traverse (directory j) (fst (dateRanges j ! i)) (snd (dateRanges j ! i)) = Inr [] \<longrightarrow>
        insertions (?finished ! i) = 0 \<and> deletions (?finished ! i) = 0 \<and> churn (?finished ! i) = 0"
    by (simp add: interval_totals_def)
  ultimately show ?thesis by simp
qed

text \<open>
  The theorem on the job of the specification's example: three commits in January 2020
  (insertions 10, 5, 0 and deletions 2, 1, 0), none in February.
\<close>

theorem codeChurnJob_results_witness:
  "codeChurnJob example_reader example_job =
     Inr (0, ''w0/.git'',
          [\<lparr>res_id = 0, repoPath = ''w0/.git'', startDate = datetime 2020 1 1,
             endDate = datetime 2020 2 1, insertions = 15, deletions = 3, churn = 18\<rparr>,
           \<lparr>res_id = 0, repoPath = ''w0/.git'', startDate = datetime 2020 2 1,
             endDate = datetime 2020 3 1, insertions = 0, deletions = 0, churn = 0\<rparr>])"
proof -
  have h: "\<forall>iv \<in> set (dateRanges example_job).
             \<exists>commits. example_reader (directory example_job) (fst iv) (snd iv) = Inr commits"
    by (simp add: example_job_def example_reader_def)
  have neq: "datetime 2020 2 1 \<noteq> datetime 2020 1 1"
    by (simp add: datetime_def)
  show ?thesis
    using codeChurnJob_results[of example_job example_reader, OF h] neq
    by (simp add: example_job_def example_reader_def interval_totals_def)
qed

subsection \<open>The analysis window is fixed\<close>

text \<open>
  Claim C10. What \<^verbatim>\<open>createJobsByTimeDelta\<close> does with a repository path is to assert that
  it exists. For a path that exists, the outcome, read for its date ranges, is the split
  of the intervals between the constants 2019-10-01 and 2025-02-01 into as many sections
  as there are directories; so two calls with the same step and the same number of
  directories get the same date ranges, whatever their paths and directories are.
\<close>

theorem createJobsByTimeDelta_window_fixed:
  assumes "os_path_exists files path" and "os_path_exists files' path'"
    and "length directories = length directories'"
  shows "map_option (map_sum id (map dateRanges))
           (createJobsByTimeDelta files add path step directories)
         = (case createMonthList add (datetime 2019 10 1) (datetime 2025 2 1) step of
              None \<Rightarrow> None
            | Some (Inl e) \<Rightarrow> Some (Inl e)
            | Some (Inr monthList) \<Rightarrow>
                Some (np_array_split (monthPairs_of monthList) (int (length directories))))
       \<and> map_option (map_sum id (map dateRanges))
           (createJobsByTimeDelta files add path step directories)
         = map_option (map_sum id (map dateRanges))
             (createJobsByTimeDelta files' add path' step directories')"
proof -
  have ranges: "map_sum id (map dateRanges) (jobList_of ps ds) = np_array_split ps (int (length ds))"
    for ps :: "(dt \<times> dt) list" and ds :: "string list"
  proof (cases "ds = []")
    case True
    then show ?thesis by (simp add: jobList_of_def np_array_split_def)
  next
    case False
    then have n: "0 < length ds" by simp
    from np_array_split_correct[OF n, of ps] obtain chunks where
      ch: "np_array_split ps (int (length ds)) = Inr chunks" "length chunks = length ds"
      by blast
    have "map dateRanges (map (\<lambda>(i, dateRanges').
              \<lparr>job_id = int i, dateRanges = dateRanges', directory = ds ! i\<rparr>)
            (zip [0 ..< length ds] chunks)) = chunks"
      using ch(2) by (intro nth_equalityI) simp_all
    then show ?thesis by (simp add: jobList_of_def ch(1))
  qed
  have one: "map_option (map_sum id (map dateRanges))
           (createJobsByTimeDelta fs0 add p step ds)
         = (case createMonthList add (datetime 2019 10 1) (datetime 2025 2 1) step of
              None \<Rightarrow> None
            | Some (Inl e) \<Rightarrow> Some (Inl e)
            | Some (Inr monthList) \<Rightarrow>
                Some (np_array_split (monthPairs_of monthList) (int (length ds))))"
    if "os_path_exists fs0 p" for fs0 p ds
    using that
    by (simp add: createJobsByTimeDelta_def GLOBAL_START_DATE_def GLOBAL_END_DATE_def ranges
             split: option.split sum.split)
  have a: "map_option (map_sum id (map dateRanges))
           (createJobsByTimeDelta files' add path' step directories')
         = (case createMonthList add (datetime 2019 10 1) (datetime 2025 2 1) step of
              None \<Rightarrow> None
            | Some (Inl e) \<Rightarrow> Some (Inl e)
            | Some (Inr monthList) \<Rightarrow>
                Some (np_array_split (monthPairs_of monthList) (int (length directories))))"
    unfolding assms(3) by (rule one[OF assms(2)])
  show ?thesis
    using one[OF assms(1), of directories] a by (simp only:)
qed

theorem createJobsByTimeDelta_window_fixed_witness:
  "os_path_exists (fs_of [''repos/all/a'', ''repos/all/b'']) ''repos/all/a'' \<and>
   os_path_exists (fs_of [''repos/all/a'', ''repos/all/b'']) ''repos/all/b'' \<and>
   length [''x0'', ''x1''] = length [''y0'', ''y1''] \<and>
   map_option (map_sum id (map dateRanges))
     (createJobsByTimeDelta (fs_of [''repos/all/a'', ''repos/all/b'']) dt_add ''repos/all/a''
        (relativedelta_months 1) [''x0'', ''x1''])
   = map_option (map_sum id (map dateRanges))
       (createJobsByTimeDelta (fs_of [''repos/all/a'', ''repos/all/b'']) dt_add ''repos/all/b''
          (relativedelta_months 1) [''y0'', ''y1''])"
proof -
  have h1: "os_path_exists (fs_of [''repos/all/a'', ''repos/all/b'']) ''repos/all/a''"
    by (simp add: os_path_exists_def fs_of_def)
  have h2: "os_path_exists (fs_of [''repos/all/a'', ''repos/all/b'']) ''repos/all/b''"
    by (simp add: os_path_exists_def fs_of_def)
  have h3: "length [''x0'', ''x1''] = length [''y0'', ''y1'']" by simp
  show ?thesis
    using createJobsByTimeDelta_window_fixed[OF h1 h2 h3, of dt_add "relativedelta_months 1"]
      h1 h2 h3
    by blast
qed

subsection \<open>The check of the worker count\<close>

text \<open>
  Claim C7 says that a worker count of 0 or less is refused with \<^verbatim>\<open>CapacityError\<close> before
  anything is provisioned. The assertion of \<^verbatim>\<open>codeChurnPerDelta\<close> tests the upper bound
  only: with 8 processors and a count of 0 the assertion passes, the temporary directory
  is created, and the run ends in the \<^verbatim>\<open>ValueError\<close> of the split into 0 sections.
\<close>

theorem codeChurnPerDelta_zero_workers:
  "codeChurnPerDelta 8 example_reader dt_add (fs_of [''repos/all/a'', ''repos/temp''])
     ''repos/all/a'' (relativedelta_months 1) ''repos/temp/tempDir'' 0 []
   = Some (Inl ValueError, fs_of [''repos/all/a'', ''repos/temp'', ''repos/temp/tempDir_v0''])"
  by code_simp

text \<open>
  Claim C7 as amended. A worker count above the number of processors less one fails the
  assertion before anything is provisioned: the file system is as it was.
\<close>

theorem codeChurnPerDelta_capacity:
  assumes "cpu_count - 1 < numDirectories"
  shows "codeChurnPerDelta cpu_count traverse add files path step tempDir numDirectories order
         = Some (Inl AssertionError, files)"
  using assms by (simp add: codeChurnPerDelta_def)

theorem codeChurnPerDelta_capacity_witness:
  "(8::int) - 1 < 8 \<and>
   codeChurnPerDelta 8 example_reader dt_add (fs_of [''repos/all/a'', ''repos/temp''])
     ''repos/all/a'' (relativedelta_months 1) ''repos/temp/tempDir'' 8 [0, 1, 2, 3, 4, 5, 6, 7]
   = Some (Inl AssertionError, fs_of [''repos/all/a'', ''repos/temp''])"
proof -
  have h: "(8::int) - 1 < 8" by simp
  show ?thesis
    using codeChurnPerDelta_capacity[OF h, of example_reader dt_add
        "fs_of [''repos/all/a'', ''repos/temp'']" "''repos/all/a''" "relativedelta_months 1"
        "''repos/temp/tempDir''" "[0, 1, 2, 3, 4, 5, 6, 7]"]
    by simp
qed

subsection \<open>A failing worker\<close>







lemma mapstar_single: "mapstar f [x] = (case f x of Inl e \<Rightarrow> Inl e | Inr y \<Rightarrow> Inr [y])"
  by (simp split: sum.split)











subsection \<open>Month keys\<close>

lemma digit_val_digit_char: "k < 10 \<Longrightarrow> digit_val (digit_char k) = Some (int k)"
proof -
  assume "k < 10"
  then have "k \<in> set [0, 1, 2, 3, 4, 5, 6, 7, 8, 9]"
    by (simp add: numeral_eq_Suc less_Suc_eq)
  then show ?thesis
    by (auto simp: digit_val_def digit_char_def)
qed

lemma four_digits:
  fixes n :: nat
  assumes "n < 10000"
  shows "1000 * (n div 1000 mod 10) + 100 * (n div 100 mod 10) + 10 * (n div 10 mod 10) + n mod 10 = n"
proof -
  define q1 where "q1 = n div 10"
  define q2 where "q2 = n div 100"
  define q3 where "q3 = n div 1000"
  have 1: "n = 10 * q1 + n mod 10" by (simp add: q1_def)
  have "q2 = q1 div 10" by (simp add: q1_def q2_def div_mult2_eq)
  then have 2: "q1 = 10 * q2 + q1 mod 10" by simp
  have "q3 = q2 div 10" by (simp add: q2_def q3_def div_mult2_eq)
  then have 3: "q2 = 10 * q3 + q2 mod 10" by simp
  have "q3 < 10" using assms by (simp add: q3_def)
  then have 4: "q3 mod 10 = q3" by simp
  have "1000 * (q3 mod 10) + 100 * (q2 mod 10) + 10 * (q1 mod 10) + n mod 10 = n"
    unfolding 4 using 1 2 3 by simp
  then show ?thesis by (simp only: q1_def q2_def q3_def)
qed

lemma two_digits:
  fixes n :: nat
  assumes "n < 100"
  shows "10 * (n div 10 mod 10) + n mod 10 = n"
proof -
  have "n div 10 < 10" using assms by simp
  then have "n div 10 mod 10 = n div 10" by simp
  then show ?thesis by simp
qed

lemma strptime_strftime:
  assumes "valid_dt d"
  shows "strptime_Ym (strftime_Ym d) = Inr (datetime (year d) (month d) 1)"
proof -
  define y where "y = nat (year d)"
  define m where "m = nat (month d)"
  define y3 where "y3 = y div 1000 mod 10"
  define y2 where "y2 = y div 100 mod 10"
  define y1 where "y1 = y div 10 mod 10"
  define y0 where "y0 = y mod 10"
  define m1 where "m1 = m div 10 mod 10"
  define m0 where "m0 = m mod 10"
  have y: "y < 10000" "int y = year d" "1 \<le> year d"
    using assms by (auto simp: y_def valid_dt_def)
  have m: "m < 100" "int m = month d" "1 \<le> month d" "month d \<le> 12"
    using assms by (auto simp: m_def valid_dt_def)
  have lt: "y3 < 10" "y2 < 10" "y1 < 10" "y0 < 10" "m1 < 10" "m0 < 10"
    by (simp_all add: y3_def y2_def y1_def y0_def m1_def m0_def)
  have "1000 * y3 + 100 * y2 + 10 * y1 + y0 = y"
    unfolding y3_def y2_def y1_def y0_def using y(1) by (rule four_digits)
  then have "int (1000 * y3 + 100 * y2 + 10 * y1 + y0) = year d"
    using y(2) by simp
  then have ey: "1000 * int y3 + 100 * int y2 + 10 * int y1 + int y0 = year d"
    by simp
  have "10 * m1 + m0 = m"
    unfolding m1_def m0_def using m(1) by (rule two_digits)
  then have "int (10 * m1 + m0) = month d"
    using m(2) by simp
  then have em: "10 * int m1 + int m0 = month d"
    by simp
  have s: "strftime_Ym d = [digit_char y3, digit_char y2, digit_char y1, digit_char y0, CHR ''-'',
                           digit_char m1, digit_char m0]"
    by (simp add: strftime_Ym_def Let_def y_def m_def y3_def y2_def y1_def y0_def m1_def m0_def)
  have py: "parse_year [digit_char y3, digit_char y2, digit_char y1, digit_char y0] = Some (year d)"
    using ey lt by (simp add: digit_val_digit_char)
  have pm: "parse_month [digit_char m1, digit_char m0] = Some (month d)"
    using em lt m(3,4) by (simp add: digit_val_digit_char)
  show ?thesis
    unfolding s using py pm y(3) by (simp add: strptime_Ym_def)
qed

lemma strftime_Ym_same_month:
  assumes "valid_dt a" "valid_dt b"
  shows "strftime_Ym a = strftime_Ym b \<longleftrightarrow> year a = year b \<and> month a = month b"
proof
  assume "strftime_Ym a = strftime_Ym b"
  then have "strptime_Ym (strftime_Ym a) = strptime_Ym (strftime_Ym b)" by simp
  then show "year a = year b \<and> month a = month b"
    using assms by (simp add: strptime_strftime datetime_def)
next
  assume "year a = year b \<and> month a = month b"
  then show "strftime_Ym a = strftime_Ym b" by (simp add: strftime_Ym_def)
qed

subsection \<open>Before and after the threshold\<close>

lemma py_sum_Float: "foldl fl_add (Float a) (map Float vs) = Float (a + sum_list vs)"
  by (induction vs arbitrary: a) (simp_all add: algebra_simps)

lemma avg_or_zero_Float: "avg_or_zero (map Float vs) = Float (mean_or_zero vs)"
  by (simp add: avg_or_zero_def mean_or_zero_def py_sum_def py_sum_Float)

lemma split_by_threshold_dates:
  assumes "\<forall>(d, v) \<in> set dvs. valid_dt d"
  shows "split_by_threshold threshold (map (\<lambda>(d, v). (strftime_Ym d, Float v)) dvs) before after
     = Inr (before @ map (\<lambda>(d, v). Float v)
                       (filter (\<lambda>(d, v). dt_less (datetime (year d) (month d) 1) threshold) dvs),
            after @ map (\<lambda>(d, v). Float v)
                      (filter (\<lambda>(d, v). \<not> dt_less (datetime (year d) (month d) 1) threshold) dvs))"
  using assms
proof (induction dvs arbitrary: before after)
  case Nil
  then show ?case by simp
next
  case (Cons dv dvs)
  obtain d v where dv: "dv = (d, v)" by (cases dv)
  have d: "valid_dt d" using Cons.prems by (simp add: dv)
  have rest: "\<forall>(d, v) \<in> set dvs. valid_dt d" using Cons.prems by simp
  show ?case
    by (simp add: dv strptime_strftime[OF d] Cons.IH[OF rest])
qed

text \<open>
  Claim C9. For a series whose keys are the month keys of valid dates, with finite
  values, the summary splits the series at the threshold: an entry is before when the
  first day of its month is earlier than the threshold, after otherwise. It reports the
  arithmetic mean of the values of each part, and 0 for a part that is empty.
\<close>

theorem summary_before_after:
  assumes "\<forall>d \<in> set ds. valid_dt d"
  shows "summary threshold (map strftime_Ym ds) (map Float vs) =
     Inr (Float (mean_or_zero (map snd
                   (filter (\<lambda>(d, v). dt_less (datetime (year d) (month d) 1) threshold)
                      (zip ds vs)))),
          Float (mean_or_zero (map snd
                   (filter (\<lambda>(d, v). \<not> dt_less (datetime (year d) (month d) 1) threshold)
                      (zip ds vs)))))"
proof -
  have z: "zip (map strftime_Ym ds) (map Float vs)
             = map (\<lambda>(d, v). (strftime_Ym d, Float v)) (zip ds vs)"
    by (simp add: zip_map_map)
  have valid: "\<forall>(d, v) \<in> set (zip ds vs). valid_dt d"
    using assms by (auto dest: set_zip_leftD)
  have m: "map (\<lambda>(d, v). Float v) xs = map Float (map snd xs)" for xs :: "(dt \<times> rat) list"
    by (simp add: case_prod_unfold comp_def)
  show ?thesis
    unfolding summary_def z split_by_threshold_dates[OF valid] m
    by (simp add: avg_or_zero_Float del: map_map)
qed

text \<open>
  The theorem at the threshold of the script, 2022-11-01, on a series of three months:
  two before it, of mean 7, and one from it on.
\<close>

theorem summary_before_after_witness:
  "summary threshold_date [''2022-09'', ''2022-10'', ''2022-11''] [Float 4, Float 10, Float 3]
     = Inr (Float 7, Float 3)"
proof -
  have h: "\<forall>d \<in> set [datetime 2022 9 1, datetime 2022 10 1, datetime 2022 11 1]. valid_dt d"
    by (simp add: valid_datetime monthrange_def)
  have k: "map strftime_Ym [datetime 2022 9 1, datetime 2022 10 1, datetime 2022 11 1]
             = [''2022-09'', ''2022-10'', ''2022-11'']"
    by code_simp
  show ?thesis
    using summary_before_after[OF h, of threshold_date "[4, 10, 3]"]
    unfolding k
    by (simp add: mean_or_zero_def threshold_date_def dt_less_def dt_tuple_def datetime_def)
qed

lemma summary_empty_part:
  "summary threshold_date [''2023-01''] [Float 5] = Inr (Float 0, Float 5)"
  by code_simp

subsection \<open>The monthly means\<close>

lemma map_of_setdefault_append:
  "map_of (setdefault_append d k v) k' =
     (if k' = k then Some (samples_of d k @ [v]) else map_of d k')"
  by (induction d) (auto simp: samples_of_def)

lemma keys_setdefault_append:
  "fst ` set (setdefault_append d k v) = insert k (fst ` set d)"
proof (induction d)
  case Nil
  then show ?case by simp
next
  case (Cons kv d)
  obtain k' vs where kv: "kv = (k', vs)" by (cases kv)
  show ?case
    using Cons.IH by (cases "k' = k") (auto simp: kv)
qed

lemma distinct_setdefault_append:
  "distinct (map fst d) \<Longrightarrow> distinct (map fst (setdefault_append d k v))"
proof (induction d)
  case Nil
  then show ?case by simp
next
  case (Cons kv d)
  obtain k' vs where kv: "kv = (k', vs)" by (cases kv)
  show ?case
  proof (cases "k' = k")
    case True
    then show ?thesis using Cons.prems by (simp add: kv)
  next
    case False
    have "k' \<notin> fst ` set (setdefault_append d k v)"
      using False Cons.prems unfolding keys_setdefault_append by (simp add: kv)
    then show ?thesis using False Cons by (simp add: kv)
  qed
qed

lemma add_item_props:
  "samples_of (add_item c item) k =
     samples_of c k @ (if month_key item = k then [churn item] else [])"
  "fst ` set (add_item c item) = insert (month_key item) (fst ` set c)"
  "dict_inv c \<Longrightarrow> dict_inv (add_item c item)"
proof -
  show "samples_of (add_item c item) k =
     samples_of c k @ (if month_key item = k then [churn item] else [])"
    by (simp add: add_item_def samples_of_def[of "setdefault_append _ _ _"] map_of_setdefault_append)
       (simp add: samples_of_def)
  show "fst ` set (add_item c item) = insert (month_key item) (fst ` set c)"
    unfolding add_item_def by (rule keys_setdefault_append)
  show "dict_inv c \<Longrightarrow> dict_inv (add_item c item)"
    unfolding dict_inv_def add_item_def
    by (auto simp: distinct_setdefault_append map_of_setdefault_append split: if_splits)
qed

lemma foldl_add_item:
  "samples_of (foldl add_item c items) k
     = samples_of c k @ map churn (filter (\<lambda>r. month_key r = k) items)"
  "fst ` set (foldl add_item c items) = fst ` set c \<union> month_key ` set items"
  "dict_inv c \<Longrightarrow> dict_inv (foldl add_item c items)"
proof -
  show "samples_of (foldl add_item c items) k
     = samples_of c k @ map churn (filter (\<lambda>r. month_key r = k) items)"
    by (induction items arbitrary: c) (simp_all add: add_item_props(1))
  show "fst ` set (foldl add_item c items) = fst ` set c \<union> month_key ` set items"
    by (induction items arbitrary: c) (simp_all add: add_item_props(2))
  show "dict_inv c \<Longrightarrow> dict_inv (foldl add_item c items)"
    by (induction items arbitrary: c) (simp_all add: add_item_props(3))
qed

lemma collect_result_fold:
  assumes "result \<noteq> []"
  shows "collect_result c result =
     Inr (foldl add_item c (sort_key (\<lambda>x. dt_tuple (startDate x)) (result_items result)))"
proof -
  have "(\<lambda>c item. setdefault_append c (strftime_Ym (startDate item)) (churn item)) = add_item"
    by (simp add: fun_eq_iff add_item_def month_key_def)
  then show ?thesis
    using assms by (simp add: collect_result_def result_items_def Let_def)
qed

lemma collect_all_samples:
  assumes "[] \<notin> set results" and "dict_inv c"
  shows "\<exists>c'. collect_all c results = Inr c' \<and> dict_inv c' \<and>
     fst ` set c' = fst ` set c \<union> month_key ` set (all_items results) \<and>
     (\<forall>k. mset (samples_of c' k)
            = mset (samples_of c k)
              + image_mset churn (filter_mset (\<lambda>r. month_key r = k) (mset (all_items results))))"
  using assms
proof (induction results arbitrary: c)
  case Nil
  then show ?case by (simp add: all_items_def)
next
  case (Cons result results)
  define items where "items = sort_key (\<lambda>x. dt_tuple (startDate x)) (result_items result)"
  define c1 where "c1 = foldl add_item c items"
  have ne: "result \<noteq> []" and rest: "[] \<notin> set results"
    using Cons.prems(1) by auto
  have step: "collect_result c result = Inr c1"
    using collect_result_fold[OF ne] by (simp add: c1_def items_def)
  have inv1: "dict_inv c1"
    unfolding c1_def using Cons.prems(2) by (rule foldl_add_item(3))
  have ms: "mset items = mset (result_items result)"
    by (simp add: items_def)
  have st: "set items = set (result_items result)"
    by (simp add: items_def)
  have keys1: "fst ` set c1 = fst ` set c \<union> month_key ` set (result_items result)"
    unfolding c1_def foldl_add_item(2) st ..
  have samples1: "mset (samples_of c1 k)
      = mset (samples_of c k)
        + image_mset churn (filter_mset (\<lambda>r. month_key r = k) (mset (result_items result)))" for k
  proof -
    have "mset (samples_of c1 k)
        = mset (samples_of c k) + image_mset churn (filter_mset (\<lambda>r. month_key r = k) (mset items))"
      unfolding c1_def foldl_add_item(1) by simp
    then show ?thesis unfolding ms .
  qed
  from Cons.IH[OF rest inv1] obtain c' where
    c': "collect_all c1 results = Inr c'" "dict_inv c'"
        "fst ` set c' = fst ` set c1 \<union> month_key ` set (all_items results)"
        "\<forall>k. mset (samples_of c' k)
              = mset (samples_of c1 k)
                + image_mset churn (filter_mset (\<lambda>r. month_key r = k) (mset (all_items results)))"
    by blast
  have all: "all_items (result # results) = result_items result @ all_items results"
    by (simp add: all_items_def)
  have "collect_all c (result # results) = Inr c'"
    using step c'(1) by simp
  moreover have "fst ` set c'
      = fst ` set c \<union> month_key ` set (all_items (result # results))"
    unfolding c'(3) keys1 all by auto
  moreover have "\<forall>k. mset (samples_of c' k)
      = mset (samples_of c k)
        + image_mset churn (filter_mset (\<lambda>r. month_key r = k)
                              (mset (all_items (result # results))))"
    using c'(4) samples1 unfolding all by simp
  ultimately show ?case using c'(2) by blast
qed

lemma avg_churn_of_present:
  assumes "\<forall>k \<in> set ks. map_of c k \<noteq> None"
  shows "avg_churn_of c ks = Inr (map (\<lambda>k. np_mean (samples_of c k)) ks)"
  using assms by (induction ks) (auto simp: samples_of_def)

text \<open>
  Claim C1. For the results of any number of repositories, each with at least one worker
  (unpacking \<^verbatim>\<open>zip(*result)\<close> fails for a repository without one), the aggregation
  returns the month keys and their means such that: the keys are in strictly ascending
  order; a key is in the output exactly when some interval result, of any repository and
  worker, has it as the \<^verbatim>\<open>%Y-%m\<close> of its start date, so a month without a sample is
  absent; and the mean of a key is the sum of the churn of all interval results with that
  key divided by their number. By \<open>strftime_Ym_same_month\<close> two valid dates have the
  same key exactly when they agree in year and month.
\<close>

theorem aggregate_monthly_means:
  assumes "[] \<notin> set results"
  shows "\<exists>monthKeys avg. aggregate results = Inr (monthKeys, avg) \<and>
     length avg = length monthKeys \<and>
     sorted_wrt (<) monthKeys \<and>
     set monthKeys = month_key ` set (all_items results) \<and>
     (\<forall>i < length monthKeys.
        avg ! i = Float (of_int (sum_list (map churn
                            (filter (\<lambda>r. month_key r = monthKeys ! i) (all_items results))))
                         / of_nat (length
                            (filter (\<lambda>r. month_key r = monthKeys ! i) (all_items results)))))"
proof -
  have inv0: "dict_inv []" by (simp add: dict_inv_def)
  from collect_all_samples[OF assms inv0] obtain c where
    c: "collect_all [] results = Inr c" "dict_inv c"
       "fst ` set c = month_key ` set (all_items results)"
       "\<forall>k. mset (samples_of c k)
             = image_mset churn (filter_mset (\<lambda>r. month_key r = k) (mset (all_items results)))"
    by (auto simp: samples_of_def)
  define ks where "ks = sort (map fst c)"
  define avg where "avg = map (\<lambda>k. np_mean (samples_of c k)) ks"
  have present: "\<forall>k \<in> set ks. map_of c k \<noteq> None"
    by (simp add: ks_def map_of_eq_None_iff)
  have agg: "aggregate results = Inr (ks, avg)"
    using c(1) avg_churn_of_present[OF present]
    by (simp add: aggregate_def Let_def ks_def[symmetric] avg_def)
  have sorted: "sorted_wrt (<) ks"
    using c(2) by (simp add: ks_def dict_inv_def strict_sorted_iff)
  have keys: "set ks = month_key ` set (all_items results)"
    using c(3) by (simp add: ks_def)
  have mean: "avg ! i = Float (of_int (sum_list (map churn
                            (filter (\<lambda>r. month_key r = ks ! i) (all_items results))))
                         / of_nat (length
                            (filter (\<lambda>r. month_key r = ks ! i) (all_items results))))"
    if i: "i < length ks" for i
  proof -
    define k where "k = ks ! i"
    define xs where "xs = filter (\<lambda>r. month_key r = k) (all_items results)"
    have "k \<in> set ks" using i by (simp add: k_def)
    then obtain vs where vs: "map_of c k = Some vs" using present by auto
    then have ne: "samples_of c k \<noteq> []"
      using c(2) by (auto simp: samples_of_def dict_inv_def)
    have m: "mset (samples_of c k) = mset (map churn xs)"
      using c(4) by (simp add: xs_def)
    have "sum_list (samples_of c k) = sum_list (map churn xs)"
      using m by (metis sum_mset_sum_list)
    moreover have "length (samples_of c k) = length xs"
      using m by (metis size_mset length_map)
    ultimately have "np_mean (samples_of c k)
        = Float (of_int (sum_list (map churn xs)) / of_nat (length xs))"
      using ne by (simp add: np_mean_def)
    then show ?thesis
      using i by (simp add: avg_def k_def xs_def)
  qed
  show ?thesis
    using agg sorted keys mean by (intro exI[of _ ks] exI[of _ avg]) (simp add: avg_def)
qed

text \<open>
  The theorem on two repositories: January 2020 has churn 18 in the first and 4 in the
  second, February 2020 has an interval without commits in the first. The mean of
  January is 11; February has one sample, of value 0, and so is in the output.
\<close>

lemma aggregate_example:
  "aggregate example_results = Inr ([''2020-01'', ''2020-02''], [Float 11, Float 0])"
  by code_simp

theorem aggregate_monthly_means_witness:
  "[] \<notin> set example_results \<and>
   aggregate example_results = Inr ([''2020-01'', ''2020-02''], [Float 11, Float 0]) \<and>
   (\<exists>monthKeys avg. aggregate example_results = Inr (monthKeys, avg) \<and>
     length avg = length monthKeys \<and>
     sorted_wrt (<) monthKeys \<and>
     set monthKeys = month_key ` set (all_items example_results) \<and>
     (\<forall>i < length monthKeys.
        avg ! i = Float (of_int (sum_list (map churn
                            (filter (\<lambda>r. month_key r = monthKeys ! i) (all_items example_results))))
                         / of_nat (length
                            (filter (\<lambda>r. month_key r = monthKeys ! i) (all_items example_results))))))"
proof -
  have h: "[] \<notin> set example_results"
    by (simp add: example_results_def)
  show ?thesis
    using aggregate_monthly_means[OF h] h aggregate_example by blast
qed

end
